theory Spec2Isabelle
  imports Complex_Main "HOL-Library.Log_Nat"
begin

section \<open>Data model of createcsvs.py\<close>

text \<open>
  The program reads the paths of one SVG plot (objects of the svgpathtools library) and
  works on points as Python complex numbers: \<open>point.real\<close> is the x coordinate,
  \<open>point.imag\<close> the y coordinate. \<open>categorise_paths\<close> compares, sorts and copies
  coordinates (its only arithmetic is the two midpoints of lines 134 and 135, taken
  exactly); there a float is the real it denotes and a point is a \<^typ>\<open>complex\<close>.
  \<open>convert_units\<close> computes with them; there a float is a double, with the rounding,
  the infinities and the NaN of Python's arithmetic.
\<close>

text \<open>The four segment classes of svgpathtools; every one has a start and an end point.\<close>

datatype segment =
    Line complex complex
  | QuadraticBezier complex complex complex
  | CubicBezier complex complex complex complex
  | Arc complex complex real bool bool complex

fun seg_start :: "segment \<Rightarrow> complex" where
  "seg_start (Line s e) = s"
| "seg_start (QuadraticBezier s c e) = s"
| "seg_start (CubicBezier s c1 c2 e) = s"
| "seg_start (Arc s r rot la sw e) = s"

fun seg_end :: "segment \<Rightarrow> complex" where
  "seg_end (Line s e) = e"
| "seg_end (QuadraticBezier s c e) = e"
| "seg_end (CubicBezier s c1 c2 e) = e"
| "seg_end (Arc s r rot la sw e) = e"

text \<open>\<open>isinstance(seg, svgpathtools.path.CubicBezier)\<close>\<close>

fun is_CubicBezier :: "segment \<Rightarrow> bool" where
  "is_CubicBezier (CubicBezier s c1 c2 e) = True"
| "is_CubicBezier seg = False"

text \<open>
  A path is its list of segments. Its arc length (\<open>path.length()\<close>) and its bounding box
  (\<open>path.bbox()\<close>, returned as \<open>(xmin, xmax, ymin, ymax)\<close>) are computed numerically by
  the geometry library; the program only reads them, so they are attributes of the path here.
\<close>

record path =
  segments :: "segment list"
  arc_length :: real
  bbox :: "real \<times> real \<times> real \<times> real"

text \<open>The exceptions the two functions can raise.\<close>

datatype py_error =
    ValueError string
  | IndexError
  | ZeroDivisionError
  | OverflowError

text \<open>\<open>len(path)\<close> is the number of segments.\<close>

definition len :: "path \<Rightarrow> nat" where
  "len p = length (segments p)"

text \<open>\<open>path.start\<close> is \<open>path[0].start\<close>, \<open>path.end\<close> is \<open>path[-1].end\<close>; both raise
  IndexError on a path with no segment.\<close>

definition path_start :: "path \<Rightarrow> py_error + complex" where
  "path_start p = (case segments p of [] \<Rightarrow> Inl IndexError | s # ss \<Rightarrow> Inr (seg_start s))"

definition path_end :: "path \<Rightarrow> py_error + complex" where
  "path_end p = (case segments p of [] \<Rightarrow> Inl IndexError | s # ss \<Rightarrow> Inr (seg_end (last (s # ss))))"

text \<open>A list comprehension whose element expression may raise: the first exception, in
  list order, ends the comprehension.\<close>

fun comprehension :: "('a \<Rightarrow> py_error + 'b) \<Rightarrow> 'a list \<Rightarrow> py_error + 'b list" where
  "comprehension f [] = Inr []"
| "comprehension f (x # xs) =
     (case f x of
        Inl e \<Rightarrow> Inl e
      | Inr y \<Rightarrow> (case comprehension f xs of Inl e \<Rightarrow> Inl e | Inr ys \<Rightarrow> Inr (y # ys)))"

section \<open>Python floats: double precision\<close>

text \<open>
  Python's one-argument \<open>round\<close> on a float: the nearest integer, a tie going to the even
  neighbour. The argument is a double, whose value is taken exactly.
\<close>

definition py_round :: "real \<Rightarrow> int" where
  "py_round x =
     (let f = \<lfloor>x\<rfloor>; d = x - of_int f
      in if d < 1 / 2 then f
         else if 1 / 2 < d then f + 1
         else if even f then f else f + 1)"

text \<open>
  A Python float is an IEEE 754 binary64 number: a finite double, an infinity or NaN. A
  finite double is given by the real it denotes; the two zeros are one value here (they
  compare equal, and the program never divides by either of them without raising).
\<close>

datatype pyfloat = Finite real | PInf | NInf | NaN

text \<open>
  \<open>ilog2 x\<close> is the integer \<open>k\<close> with \<open>2 ^ k \<le> x < 2 ^ (k + 1)\<close>, for \<open>x > 0\<close> (see
  \<open>ilog2_bounds\<close>). The doubles near \<open>x\<close> are the integer multiples of \<open>2\<close> to the
  power \<open>ulp_exponent x\<close>: 53 significant bits, and no exponent below that of the
  subnormal numbers.
\<close>

definition ilog2 :: "real \<Rightarrow> int" where
  "ilog2 x = (if 1 \<le> x then bitlen \<lfloor>x\<rfloor> - 1 else - bitlen (\<lceil>1 / x\<rceil> - 1))"

definition ulp_exponent :: "real \<Rightarrow> int" where
  "ulp_exponent x = max (ilog2 \<bar>x\<bar> - 52) (- 1074)"

text \<open>
  Rounding to nearest, ties to the even significand, with no bound on the exponent; and
  the largest finite double.
\<close>

definition rne :: "real \<Rightarrow> real" where
  "rne x =
     (if x = 0 then 0
      else of_int (py_round (x / 2 powi ulp_exponent x)) * 2 powi ulp_exponent x)"

definition max_double :: real where
  "max_double = (2 ^ 53 - 1) * 2 ^ 971"

text \<open>
  The double that an arithmetic operation returns for the exact result \<open>x\<close>: the rounded
  value, or an infinity when that is beyond the largest finite double.
\<close>

definition fl :: "real \<Rightarrow> pyfloat" where
  "fl x =
     (let r = rne x
      in if max_double < r then PInf else if r < - max_double then NInf else Finite r)"

text \<open>The reals that are doubles, and the values a Python float can have.\<close>

definition is_double :: "real \<Rightarrow> bool" where
  "is_double r = (fl r = Finite r)"

fun is_float :: "pyfloat \<Rightarrow> bool" where
  "is_float (Finite r) = is_double r"
| "is_float v = True"

text \<open>Negation, \<open>abs\<close>, \<open>+\<close>, \<open>-\<close> and \<open>*\<close> on floats, as IEEE 754 defines them.\<close>

fun fneg :: "pyfloat \<Rightarrow> pyfloat" where
  "fneg (Finite x) = Finite (- x)"
| "fneg PInf = NInf"
| "fneg NInf = PInf"
| "fneg NaN = NaN"

fun fabs :: "pyfloat \<Rightarrow> pyfloat" where
  "fabs (Finite x) = Finite \<bar>x\<bar>"
| "fabs PInf = PInf"
| "fabs NInf = PInf"
| "fabs NaN = NaN"

fun fadd :: "pyfloat \<Rightarrow> pyfloat \<Rightarrow> pyfloat" where
  "fadd (Finite x) (Finite y) = fl (x + y)"
| "fadd NaN b = NaN"
| "fadd a NaN = NaN"
| "fadd PInf NInf = NaN"
| "fadd NInf PInf = NaN"
| "fadd PInf b = PInf"
| "fadd NInf b = NInf"
| "fadd a PInf = PInf"
| "fadd a NInf = NInf"

definition fsub :: "pyfloat \<Rightarrow> pyfloat \<Rightarrow> pyfloat" where
  "fsub a b = fadd a (fneg b)"

fun fmul :: "pyfloat \<Rightarrow> pyfloat \<Rightarrow> pyfloat" where
  "fmul (Finite x) (Finite y) = fl (x * y)"
| "fmul NaN b = NaN"
| "fmul a NaN = NaN"
| "fmul (Finite x) PInf = (if x = 0 then NaN else if 0 < x then PInf else NInf)"
| "fmul (Finite x) NInf = (if x = 0 then NaN else if 0 < x then NInf else PInf)"
| "fmul PInf (Finite y) = (if y = 0 then NaN else if 0 < y then PInf else NInf)"
| "fmul NInf (Finite y) = (if y = 0 then NaN else if 0 < y then NInf else PInf)"
| "fmul PInf PInf = PInf"
| "fmul PInf NInf = NInf"
| "fmul NInf PInf = NInf"
| "fmul NInf NInf = PInf"

text \<open>
  The quotient of two floats when the divisor is not zero; Python's \<open>/\<close> raises
  ZeroDivisionError on a zero divisor, whatever the dividend, before any quotient is
  formed, so the value given here for a zero divisor is never used.
\<close>

fun fquot :: "pyfloat \<Rightarrow> pyfloat \<Rightarrow> pyfloat" where
  "fquot (Finite x) (Finite y) = (if y = 0 then NaN else fl (x / y))"
| "fquot NaN b = NaN"
| "fquot a NaN = NaN"
| "fquot (Finite x) b = Finite 0"
| "fquot PInf (Finite y) = (if 0 \<le> y then PInf else NInf)"
| "fquot NInf (Finite y) = (if 0 \<le> y then NInf else PInf)"
| "fquot a b = NaN"

definition truediv :: "pyfloat \<Rightarrow> pyfloat \<Rightarrow> py_error + pyfloat" where
  "truediv a b = (if b = Finite 0 then Inl ZeroDivisionError else Inr (fquot a b))"

text \<open>Python's \<open><\<close> on floats: false whenever an operand is NaN.\<close>

fun fless :: "pyfloat \<Rightarrow> pyfloat \<Rightarrow> bool" where
  "fless (Finite x) (Finite y) = (x < y)"
| "fless NaN b = False"
| "fless a NaN = False"
| "fless PInf b = False"
| "fless a NInf = False"
| "fless NInf b = True"
| "fless a PInf = True"

text \<open>
  An int operand of a float operation is converted first: to the nearest double, or with
  OverflowError when it is too large. A number argument is an int or a float.
\<close>

definition float_of_int :: "int \<Rightarrow> py_error + pyfloat" where
  "float_of_int n =
     (case fl (of_int n) of
        Finite r \<Rightarrow> Inr (Finite r)
      | v \<Rightarrow> Inl OverflowError)"

datatype number = PyInt int | PyFloat pyfloat

fun to_float :: "number \<Rightarrow> py_error + pyfloat" where
  "to_float (PyFloat v) = Inr v"
| "to_float (PyInt n) = float_of_int n"

text \<open>\<open>round(v)\<close> on a float: OverflowError on an infinity, ValueError on NaN.\<close>

fun round_float :: "pyfloat \<Rightarrow> py_error + int" where
  "round_float (Finite x) = Inr (py_round x)"
| "round_float NaN = Inl (ValueError ''cannot convert float NaN to integer'')"
| "round_float v = Inl OverflowError"

section \<open>convert\_units\<close>

text \<open>A sample of the trend: a Python complex number, \<open>point.real\<close> and \<open>point.imag\<close>.\<close>

datatype point = Point (p_real: pyfloat) (p_imag: pyfloat)

text \<open>
  Line 178, \<open>x_out = 1 + round(xspan * ((x - xmin) / x_scale))\<close>, in the order Python
  evaluates it: the division (ZeroDivisionError), the conversion of the int \<open>xspan\<close> for
  the product (OverflowError), the rounding (OverflowError, ValueError).
\<close>

definition x_out_of :: "pyfloat \<Rightarrow> pyfloat \<Rightarrow> int \<Rightarrow> pyfloat \<Rightarrow> py_error + int" where
  "x_out_of xmin x_scale xspan x =
     (case truediv (fsub x xmin) x_scale of
        Inl e \<Rightarrow> Inl e
      | Inr q \<Rightarrow>
          (case float_of_int xspan of
             Inl e \<Rightarrow> Inl e
           | Inr xs \<Rightarrow>
               (case round_float (fmul xs q) of
                  Inl e \<Rightarrow> Inl e
                | Inr n \<Rightarrow> Inr (1 + n))))"

text \<open>
  Line 179, \<open>y_out = yspan * ((ymid - y) / y_scale)\<close>. \<open>yspan\<close> is a number: the program
  itself passes the int 80.
\<close>

definition y_out_of :: "pyfloat \<Rightarrow> pyfloat \<Rightarrow> number \<Rightarrow> pyfloat \<Rightarrow> py_error + pyfloat" where
  "y_out_of ymid y_scale yspan y =
     (case truediv (fsub ymid y) y_scale of
        Inl e \<Rightarrow> Inl e
      | Inr q \<Rightarrow>
          (case to_float yspan of
             Inl e \<Rightarrow> Inl e
           | Inr ys \<Rightarrow> Inr (fmul ys q)))"

text \<open>
  The loop of \<open>convert_units\<close> (lines 173 to 181), \<open>acc\<close> being \<open>trend_plot_coords\<close>;
  \<open>x_out\<close> is computed before \<open>y_out\<close>.
\<close>

fun convert_loop ::
  "pyfloat \<Rightarrow> pyfloat \<Rightarrow> pyfloat \<Rightarrow> pyfloat \<Rightarrow> number \<Rightarrow> int \<Rightarrow> point list \<Rightarrow> (int \<times> pyfloat) list
    \<Rightarrow> py_error + (int \<times> pyfloat) list" where
  "convert_loop xmin x_scale ymid y_scale yspan xspan [] acc = Inr acc"
| "convert_loop xmin x_scale ymid y_scale yspan xspan (point # rest) acc =
     (let x = p_real point; y = p_imag point
      in case x_out_of xmin x_scale xspan x of
           Inl e \<Rightarrow> Inl e
         | Inr x_out \<Rightarrow>
             (case y_out_of ymid y_scale yspan y of
                Inl e \<Rightarrow> Inl e
              | Inr y_out \<Rightarrow>
                  convert_loop xmin x_scale ymid y_scale yspan xspan rest
                    (acc @ [(x_out, y_out)])))"

text \<open>
  Line 171, \<open>y_scale = (abs(ymax - ymid) + abs(ymid - ymin)) / 2\<close>; the divisor 2 is not
  zero, so nothing is raised.
\<close>

definition y_scale_of :: "pyfloat \<Rightarrow> pyfloat \<Rightarrow> pyfloat \<Rightarrow> pyfloat" where
  "y_scale_of ymax ymid ymin =
     fquot (fadd (fabs (fsub ymax ymid)) (fabs (fsub ymid ymin))) (Finite 2)"

text \<open>
  \<open>convert_units(trend, line_y, xlim, yspan, xspan)\<close>. \<open>xlim\<close> is the pair built by
  \<open>categorise_paths\<close>; \<open>line_y\<close> is a list, and unpacking it into three names raises
  ValueError unless it has exactly three elements. \<open>xspan\<close> is a whole number of days, an
  int.
\<close>

definition convert_units ::
  "point list \<Rightarrow> pyfloat list \<Rightarrow> pyfloat \<times> pyfloat \<Rightarrow> number \<Rightarrow> int
    \<Rightarrow> py_error + (int \<times> pyfloat) list" where
  "convert_units trend line_y xlim yspan xspan =
     (case xlim of (xmin, xmax) \<Rightarrow>
        let x_scale = fsub xmax xmin
        in (case line_y of
              [ymax, ymid, ymin] \<Rightarrow>
                let y_scale = y_scale_of ymax ymid ymin
                in convert_loop xmin x_scale ymid y_scale yspan xspan trend []
            | _ \<Rightarrow> Inl (ValueError ''unpack: expected 3 values'')))"

text \<open>
  The float that line 178 passes to \<open>round\<close> for a sample with native x coordinate \<open>x\<close>
  (an int \<open>xspan\<close> too large for a float gives an infinity here, where the code raises),
  and what one pass of the loop appends for a sample.
\<close>

definition day_value :: "pyfloat \<Rightarrow> pyfloat \<Rightarrow> int \<Rightarrow> pyfloat \<Rightarrow> pyfloat" where
  "day_value xmin x_scale xspan x = fmul (fl (of_int xspan)) (fquot (fsub x xmin) x_scale)"

definition sample_pair ::
  "pyfloat \<Rightarrow> pyfloat \<Rightarrow> pyfloat \<Rightarrow> pyfloat \<Rightarrow> number \<Rightarrow> int \<Rightarrow> point \<Rightarrow> py_error + int \<times> pyfloat" where
  "sample_pair xmin x_scale ymid y_scale yspan xspan p =
     (case x_out_of xmin x_scale xspan (p_real p) of
        Inl e \<Rightarrow> Inl e
      | Inr n \<Rightarrow>
          (case y_out_of ymid y_scale yspan (p_imag p) of
             Inl e \<Rightarrow> Inl e
           | Inr v \<Rightarrow> Inr (n, v)))"

section \<open>categorise\_paths\<close>

text \<open>The slice \<open>xs[:k]\<close>: a negative \<open>k\<close> counts from the end of the list.\<close>

definition slice_to :: "'a list \<Rightarrow> int \<Rightarrow> 'a list" where
  "slice_to xs k = (if k < 0 then take (length xs - nat (- k)) xs else take (nat k) xs)"

text \<open>
  \<open>sorted(ys, reverse=True)\<close>: Python reverses the list, sorts it (stably, ascending) and
  reverses the result.
\<close>

definition sorted_reverse :: "real list \<Rightarrow> real list" where
  "sorted_reverse ys = rev (sort (rev ys))"

text \<open>The decimal numeral an f-string prints for a length.\<close>

fun str_nat :: "nat \<Rightarrow> string" where
  "str_nat n =
     (if n < 10 then [''0123456789'' ! n]
      else str_nat (n div 10) @ [''0123456789'' ! (n mod 10)])"

declare str_nat.simps [simp del]

text \<open>
  Lines 108 to 116: the single-segment paths, and from more than five of them, after the
  in-place sort by arc length (\<open>list.sort\<close> is stable), the slices \<open>[:-5]\<close> and
  \<open>[:5]\<close> of the sorted list. The result is the pair
  \<open>(single_segment_lines, short_trends)\<close> as line 118 finds them.
\<close>

definition reference_candidates :: "path list \<Rightarrow> path list \<times> path list" where
  "reference_candidates paths =
     (let single_segment_lines = filter (\<lambda>path. len path = 1) paths;
          short_trends = []
      in if length single_segment_lines > 5
         then let single_segment_lines = sort_key arc_length single_segment_lines;
                  short_trends = slice_to single_segment_lines (- 5);
                  single_segment_lines = slice_to single_segment_lines 5
              in (single_segment_lines, short_trends)
         else (single_segment_lines, short_trends))"

text \<open>Line 118: \<open>sorted([path.start.imag for path in single_segment_lines])\<close>.\<close>

definition start_ys :: "path list \<Rightarrow> py_error + real list" where
  "start_ys single_segment_lines =
     (case comprehension (\<lambda>path. map_sum id Im (path_start path)) single_segment_lines of
        Inl e \<Rightarrow> Inl e
      | Inr ys \<Rightarrow> Inr (sort ys))"

text \<open>Lines 120 and 121: five values collapse to the first, the third and the last.\<close>

definition collapse :: "real list \<Rightarrow> real list" where
  "collapse y_lines =
     (if length y_lines = 5 then [y_lines ! 0, y_lines ! 2, last y_lines] else y_lines)"

text \<open>Lines 108 to 121 together: \<open>y_lines\<close> as the test of line 125 finds it.\<close>

definition reference_y_lines :: "path list \<Rightarrow> py_error + real list" where
  "reference_y_lines paths =
     (case start_ys (fst (reference_candidates paths)) of
        Inl e \<Rightarrow> Inl e
      | Inr y_lines \<Rightarrow> Inr (collapse y_lines))"

text \<open>
  Line 127: the comprehension over the single-segment paths of the argument \<open>paths\<close>, and
  its element at index 1 (IndexError when there is none).
\<close>

definition x_limits :: "path list \<Rightarrow> py_error + real \<times> real" where
  "x_limits paths =
     (case comprehension
             (\<lambda>path. case path_start path of
                        Inl e \<Rightarrow> Inl e
                      | Inr s \<Rightarrow> (case path_end path of
                                    Inl e \<Rightarrow> Inl e
                                  | Inr e \<Rightarrow> Inr (Re s, Re e)))
             (filter (\<lambda>path. len path = 1) paths) of
        Inl e \<Rightarrow> Inl e
      | Inr xlims \<Rightarrow> if 1 < length xlims then Inr (xlims ! 1) else Inl IndexError)"

text \<open>
  Modelled from the spec: \<open>Path.continuous_subpaths()\<close> of the geometry library, which is
  not part of the repository. The spec has it decompose a path into its maximal continuous
  sub-paths, a sub-path being a maximal run of segments where each segment's end touches
  (is the same point as) the next segment's start. Sub-paths are given by their segments.
\<close>

fun continuous_subpaths :: "segment list \<Rightarrow> segment list list" where
  "continuous_subpaths [] = []"
| "continuous_subpaths [s] = [[s]]"
| "continuous_subpaths (s # t # rest) =
     (if seg_end s = seg_start t
      then (case continuous_subpaths (t # rest) of
              [] \<Rightarrow> [[s]]
            | run # runs \<Rightarrow> (s # run) # runs)
      else [s] # continuous_subpaths (t # rest))"

text \<open>
  Lines 141 to 143, the loop over the sub-paths of one trend: \<open>points += [segment.start
  for segment in sub_path]\<close>, then \<open>points.append(sub_path.end)\<close>, which raises IndexError
  on a sub-path with no segment.
\<close>

fun subpath_loop :: "segment list list \<Rightarrow> complex list \<Rightarrow> py_error + complex list" where
  "subpath_loop [] points = Inr points"
| "subpath_loop (sub_path # rest) points =
     (let points = points @ map seg_start sub_path
      in case sub_path of
           [] \<Rightarrow> Inl IndexError
         | s # ss \<Rightarrow> subpath_loop rest (points @ [seg_end (last (s # ss))]))"

text \<open>
  Lines 131 to 143, the loop over \<open>trends\<close>. \<open>trend[0]\<close> raises IndexError on a path with
  no segment.
\<close>

fun trend_loop :: "path list \<Rightarrow> complex list \<Rightarrow> py_error + complex list" where
  "trend_loop [] points = Inr points"
| "trend_loop (trend # rest) points =
     (case segments trend of
        [] \<Rightarrow> Inl IndexError
      | seg0 # segs \<Rightarrow>
          if is_CubicBezier seg0
          then (case bbox trend of
                  (point_xmin, point_xmax, point_ymin, point_ymax) \<Rightarrow>
                    let xmid = (point_xmin + point_xmax) / 2;
                        ymid = (point_ymin + point_ymax) / 2
                    in trend_loop rest (points @ [Complex xmid ymid]))
          else (case subpath_loop (continuous_subpaths (segments trend)) points of
                  Inl e \<Rightarrow> Inl e
                | Inr points \<Rightarrow> trend_loop rest points))"

text \<open>
  \<open>categorise_paths(paths)\<close>: the result is \<open>(xlim, y_lines, points)\<close>, or the exception
  raised.
\<close>

definition categorise_paths ::
  "path list \<Rightarrow> py_error + (real \<times> real) \<times> real list \<times> complex list" where
  "categorise_paths paths =
     (case reference_candidates paths of
        (single_segment_lines, short_trends) \<Rightarrow>
          (case start_ys single_segment_lines of
             Inl e \<Rightarrow> Inl e
           | Inr y_lines \<Rightarrow>
               let y_lines = collapse y_lines
               in if length y_lines = 3
                  then (case x_limits paths of
                          Inl e \<Rightarrow> Inl e
                        | Inr xlim \<Rightarrow>
                            let trends = filter (\<lambda>path. len path > 1) paths @ short_trends
                            in (case trend_loop trends [] of
                                  Inl e \<Rightarrow> Inl e
                                | Inr points \<Rightarrow> Inr (xlim, sorted_reverse y_lines, points)))
                  else Inl (ValueError (''Wrong number of y_lines: '' @ str_nat (length y_lines)))))"

text \<open>
  The sampling rule in the spec's words, for one trend primitive: the centre of the
  bounding box when the first segment is a cubic curve; otherwise, for each maximal
  continuous sub-path in order, the start of every segment and then the sub-path's end.
\<close>

definition sample_points :: "path \<Rightarrow> complex list" where
  "sample_points trend =
     (if is_CubicBezier (hd (segments trend))
      then (case bbox trend of
              (x0, x1, y0, y1) \<Rightarrow> [Complex ((x0 + x1) / 2) ((y0 + y1) / 2)])
      else concat (map (\<lambda>run. map seg_start run @ [seg_end (last run)])
                     (continuous_subpaths (segments trend))))"

text \<open>
  What "maximal continuous sub-paths" means, as two checks on a decomposition: inside a
  run each segment ends where the next one starts, and between two neighbouring runs the
  path breaks.
\<close>

fun iscontinuous :: "segment list \<Rightarrow> bool" where
  "iscontinuous (s # t # rest) = (seg_end s = seg_start t \<and> iscontinuous (t # rest))"
| "iscontinuous segs = True"

fun runs_maximal :: "segment list list \<Rightarrow> bool" where
  "runs_maximal (r1 # r2 # rest) =
     (r1 \<noteq> [] \<and> r2 \<noteq> [] \<and> seg_end (last r1) \<noteq> seg_start (hd r2) \<and> runs_maximal (r2 # rest))"
| "runs_maximal runs = True"

section \<open>The store: who owns the list that is sorted\<close>

text \<open>
  \<open>paths\<close> is a reference to a Python list that the caller owns, and the list holds
  references to Path objects. To follow what \<open>categorise_paths\<close> may change, the heap
  is the list of all objects, an address being an index into it; a new object is
  appended. References are always to live objects: see \<open>wf_heap\<close>.
\<close>

datatype obj = PathObj path | ListObj "nat list"

type_synonym heap = "obj list"

definition alloc :: "heap \<Rightarrow> obj \<Rightarrow> nat \<times> heap" where
  "alloc h v = (length h, h @ [v])"

text \<open>
  Reading a list object, and a Path object, through a reference. A Python reference
  always leads to a live object of the expected class; on a heap that is \<open>wf_heap\<close> the
  second case of each reader is never taken.
\<close>

definition list_at :: "heap \<Rightarrow> nat \<Rightarrow> nat list" where
  "list_at h r = (case h ! r of ListObj rs \<Rightarrow> rs | PathObj p \<Rightarrow> [])"

definition path_at :: "heap \<Rightarrow> nat \<Rightarrow> path" where
  "path_at h r =
     (case h ! r of
        PathObj p \<Rightarrow> p
      | ListObj rs \<Rightarrow> \<lparr>segments = [], arc_length = 0, bbox = (0, 0, 0, 0)\<rparr>)"

text \<open>The argument is a list object of the heap, and every element of it is a reference
  to a Path object of the heap.\<close>

definition wf_heap :: "heap \<Rightarrow> nat \<Rightarrow> bool" where
  "wf_heap h paths =
     (paths < length h \<and>
      (case h ! paths of
         ListObj rs \<Rightarrow>
           list_all (\<lambda>r. r < length h \<and> (case h ! r of PathObj p \<Rightarrow> True | ListObj l \<Rightarrow> False)) rs
       | PathObj p \<Rightarrow> False))"

text \<open>
  Lines 108 to 116 on the heap. The comprehension of line 108 and the empty list of line
  110 are new objects; \<open>single_segment_lines.sort(...)\<close> of line 113 overwrites the
  object that \<open>single_segment_lines\<close> refers to; each slice is a new object. The result
  is the references \<open>single_segment_lines\<close> and \<open>short_trends\<close> and the heap.
\<close>

definition reference_candidates_heap :: "heap \<Rightarrow> nat \<Rightarrow> nat \<times> nat \<times> heap" where
  "reference_candidates_heap h paths =
     (case alloc h (ListObj (filter (\<lambda>path. len (path_at h path) = 1) (list_at h paths))) of
        (single_segment_lines, h) \<Rightarrow>
     (case alloc h (ListObj []) of
        (short_trends, h) \<Rightarrow>
          if length (list_at h single_segment_lines) > 5
          then let h = h[single_segment_lines :=
                          ListObj (sort_key (\<lambda>p. arc_length (path_at h p))
                                     (list_at h single_segment_lines))]
               in (case alloc h (ListObj (slice_to (list_at h single_segment_lines) (- 5))) of
                     (short_trends, h) \<Rightarrow>
                  (case alloc h (ListObj (slice_to (list_at h single_segment_lines) 5)) of
                     (single_segment_lines, h) \<Rightarrow>
                       (single_segment_lines, short_trends, h)))
          else (single_segment_lines, short_trends, h)))"

text \<open>
  \<open>categorise_paths\<close> on the heap: the result or exception, and the heap it leaves. Lists
  of numbers and points (\<open>y_lines\<close>, \<open>xlim\<close>, \<open>points\<close>) hold no reference to a path and
  stay values; the two lists of line 129 (the comprehension and its concatenation with
  \<open>short_trends\<close>) are new objects.
\<close>

definition categorise_paths_heap ::
  "heap \<Rightarrow> nat \<Rightarrow> (py_error + (real \<times> real) \<times> real list \<times> complex list) \<times> heap" where
  "categorise_paths_heap h paths =
     (case reference_candidates_heap h paths of
        (single_segment_lines, short_trends, h) \<Rightarrow>
          (case start_ys (map (path_at h) (list_at h single_segment_lines)) of
             Inl e \<Rightarrow> (Inl e, h)
           | Inr y_lines \<Rightarrow>
               let y_lines = collapse y_lines
               in if length y_lines = 3
                  then (case x_limits (map (path_at h) (list_at h paths)) of
                          Inl e \<Rightarrow> (Inl e, h)
                        | Inr xlim \<Rightarrow>
                            (case alloc h (ListObj (filter (\<lambda>path. len (path_at h path) > 1)
                                                      (list_at h paths))) of
                               (multi, h) \<Rightarrow>
                            (case alloc h (ListObj (list_at h multi @ list_at h short_trends)) of
                               (trends, h) \<Rightarrow>
                                 (case trend_loop (map (path_at h) (list_at h trends)) [] of
                                    Inl e \<Rightarrow> (Inl e, h)
                                  | Inr points \<Rightarrow>
                                      (Inr (xlim, sorted_reverse y_lines, points), h)))))
                  else (Inl (ValueError (''Wrong number of y_lines: '' @ str_nat (length y_lines))),
                        h)))"

text \<open>\<open>extends h' h\<close>: every object of \<open>h\<close> is at its address in \<open>h'\<close>, unchanged.\<close>

definition extends :: "heap \<Rightarrow> heap \<Rightarrow> bool" where
  "extends h' h = (take (length h) h' = h)"

section \<open>Drawings used as concrete inputs\<close>

text \<open>
  A horizontal line from \<open>(x0, y)\<close> to \<open>(x1, y)\<close> as a path of one segment, with the arc
  length and the bounding box the library computes for it.
\<close>

definition hline :: "real \<Rightarrow> real \<Rightarrow> real \<Rightarrow> path" where
  "hline y x0 x1 =
     \<lparr>segments = [Line (Complex x0 y) (Complex x1 y)],
      arc_length = \<bar>x1 - x0\<bar>,
      bbox = (min x0 x1, max x0 x1, y, y)\<rparr>"

text \<open>A polyline of three straight segments, the third not touching the second.\<close>

definition polyline :: path where
  "polyline =
     \<lparr>segments = [Line (Complex 0 0) (Complex 3 4), Line (Complex 3 4) (Complex 6 0),
                  Line (Complex 7 0) (Complex 7 2)],
      arc_length = 12,
      bbox = (0, 7, 0, 4)\<rparr>"

text \<open>A path that starts with a cubic curve (a straight one, so that its length is exact).\<close>

definition curve :: path where
  "curve =
     \<lparr>segments = [CubicBezier (Complex 0 0) (Complex 1 0) (Complex 2 0) (Complex 3 0),
                  Line (Complex 3 0) (Complex 3 4)],
      arc_length = 7,
      bbox = (0, 3, 0, 4)\<rparr>"

section \<open>Auxiliary facts: rounding and doubles\<close>

lemma py_round_of_int: "py_round (of_int n) = n"
  by (simp add: py_round_def)

lemma py_round_lower: "\<lfloor>x\<rfloor> \<le> py_round x"
  by (simp add: py_round_def Let_def)

lemma py_round_upper: "py_round x \<le> \<lfloor>x\<rfloor> + 1"
  by (simp add: py_round_def Let_def)

lemma py_round_mono:
  assumes "x \<le> y"
  shows "py_round x \<le> py_round y"
proof (cases "\<lfloor>x\<rfloor> = \<lfloor>y\<rfloor>")
  case True
  with assms show ?thesis
    by (auto simp add: py_round_def Let_def)
next
  case False
  from assms have "\<lfloor>x\<rfloor> \<le> \<lfloor>y\<rfloor>" by (rule floor_mono)
  with False have "\<lfloor>x\<rfloor> + 1 \<le> \<lfloor>y\<rfloor>" by simp
  with py_round_upper [of x] py_round_lower [of y] show ?thesis by linarith
qed

lemma py_round_near:
  "\<bar>x - of_int (py_round x)\<bar> < 1 / 2 \<or> (\<bar>x - of_int (py_round x)\<bar> = 1 / 2 \<and> even (py_round x))"
proof -
  define d where "d = x - of_int \<lfloor>x\<rfloor>"
  have d: "0 \<le> d" "d < 1" unfolding d_def by linarith+
  have x: "x = of_int \<lfloor>x\<rfloor> + d" by (simp add: d_def)
  consider "d < 1 / 2" | "1 / 2 < d" | "d = 1 / 2" "even \<lfloor>x\<rfloor>" | "d = 1 / 2" "odd \<lfloor>x\<rfloor>"
    by fastforce
  then show ?thesis
  proof cases
    case 1
    then have "py_round x = \<lfloor>x\<rfloor>" by (simp add: py_round_def Let_def d_def)
    with 1 d show ?thesis by (simp add: d_def [symmetric])
  next
    case 2
    then have r: "py_round x = \<lfloor>x\<rfloor> + 1" by (simp add: py_round_def Let_def d_def)
    have "x - of_int (\<lfloor>x\<rfloor> + 1) = d - 1" by (simp add: d_def)
    with 2 d show ?thesis unfolding r by simp
  next
    case 3
    then have "py_round x = \<lfloor>x\<rfloor>" by (simp add: py_round_def Let_def d_def)
    with 3 show ?thesis by (simp add: d_def [symmetric])
  next
    case 4
    then have r: "py_round x = \<lfloor>x\<rfloor> + 1" by (simp add: py_round_def Let_def d_def)
    have "x - of_int (\<lfloor>x\<rfloor> + 1) = d - 1" by (simp add: d_def)
    with 4 show ?thesis unfolding r by simp
  qed
qed

lemma py_round_unique:
  assumes "\<bar>x - of_int n\<bar> < 1 / 2 \<or> (\<bar>x - of_int n\<bar> = 1 / 2 \<and> even n)"
  shows "py_round x = n"
proof -
  have bounds: "of_int \<lfloor>x\<rfloor> \<le> x" "x < of_int \<lfloor>x\<rfloor> + 1" by linarith+
  from assms have "\<bar>x - of_int n\<bar> \<le> 1 / 2" by auto
  with bounds have "of_int \<lfloor>x\<rfloor> < (of_int n :: real) + 1" "(of_int n :: real) < of_int \<lfloor>x\<rfloor> + 2"
    by linarith+
  then have "\<lfloor>x\<rfloor> < n + 1" "n < \<lfloor>x\<rfloor> + 2" by linarith+
  then consider "n = \<lfloor>x\<rfloor>" | "n = \<lfloor>x\<rfloor> + 1" by linarith
  then show ?thesis
  proof cases
    case 1
    with assms bounds show ?thesis
      by (auto simp add: py_round_def Let_def abs_if split: if_splits)
  next
    case 2
    with assms bounds show ?thesis
      by (auto simp add: py_round_def Let_def abs_if split: if_splits)
  qed
qed

lemma py_round_minus: "py_round (- x) = - py_round x"
proof (rule py_round_unique)
  from py_round_near [of x]
  show "\<bar>- x - of_int (- py_round x)\<bar> < 1 / 2 \<or>
        (\<bar>- x - of_int (- py_round x)\<bar> = 1 / 2 \<and> even (- py_round x))"
    by (auto simp add: abs_if split: if_splits)
qed

lemma py_round_le: "x \<le> of_int n \<Longrightarrow> py_round x \<le> n"
  using py_round_mono [of x "of_int n"] by (simp add: py_round_of_int)

lemma py_round_ge: "of_int n \<le> x \<Longrightarrow> n \<le> py_round x"
  using py_round_mono [of "of_int n" x] by (simp add: py_round_of_int)

lemma powi2_less_iff: "(2::real) powi a < 2 powi b \<longleftrightarrow> a < b"
proof
  assume "(2::real) powi a < 2 powi b"
  show "a < b"
  proof (rule ccontr)
    assume "\<not> a < b"
    then have "(2::real) powi b \<le> 2 powi a" by (intro power_int_increasing) simp_all
    with \<open>(2::real) powi a < 2 powi b\<close> show False by simp
  qed
next
  assume "a < b"
  then show "(2::real) powi a < 2 powi b" by (intro power_int_strict_increasing) simp_all
qed

lemma powi2_le_iff: "(2::real) powi a \<le> 2 powi b \<longleftrightarrow> a \<le> b"
  using powi2_less_iff [of b a] by (auto simp add: not_less [symmetric])

lemma ilog2_bounds:
  assumes "0 < x"
  shows "2 powi ilog2 x \<le> x" and "x < 2 powi (ilog2 x + 1)"
proof -
  have "2 powi ilog2 x \<le> x \<and> x < 2 powi (ilog2 x + 1)"
  proof (cases "1 \<le> x")
    case True
    then have pos: "0 < \<lfloor>x\<rfloor>" by linarith
    define b where "b = bitlen \<lfloor>x\<rfloor>"
    from bitlen_bounds [OF pos] have lo: "2 ^ nat (b - 1) \<le> \<lfloor>x\<rfloor>" and hi: "\<lfloor>x\<rfloor> < 2 ^ nat b"
      by (simp_all add: b_def)
    have b1: "1 \<le> b"
    proof (rule ccontr)
      assume "\<not> 1 \<le> b"
      then have "nat b = 0" by simp
      with hi pos show False by simp
    qed
    have "(2::real) ^ nat (b - 1) \<le> of_int \<lfloor>x\<rfloor>"
      using lo by (metis of_int_le_iff of_int_numeral of_int_power)
    also have "\<dots> \<le> x" by linarith
    finally have l: "2 powi (b - 1) \<le> x"
      using b1 by (simp add: power_int_nonneg_exp)
    have "\<lfloor>x\<rfloor> + 1 \<le> 2 ^ nat b" using hi by simp
    then have "(of_int (\<lfloor>x\<rfloor> + 1) :: real) \<le> 2 ^ nat b"
      by (metis of_int_le_iff of_int_numeral of_int_power)
    moreover have "x < of_int (\<lfloor>x\<rfloor> + 1)" by linarith
    ultimately have "x < 2 ^ nat b" by linarith
    then have h: "x < 2 powi b"
      using b1 by (simp add: power_int_nonneg_exp)
    from l h True show ?thesis by (simp add: ilog2_def b_def)
  next
    case False
    with assms have inv: "1 < 1 / x" by simp
    define c where "c = \<lceil>1 / x\<rceil>"
    have c2: "2 \<le> c" using inv unfolding c_def by linarith
    then have pos: "0 < c - 1" by simp
    define b where "b = bitlen (c - 1)"
    from bitlen_bounds [OF pos] have lo: "2 ^ nat (b - 1) \<le> c - 1" and hi: "c - 1 < 2 ^ nat b"
      by (simp_all add: b_def)
    have b1: "1 \<le> b"
    proof (rule ccontr)
      assume "\<not> 1 \<le> b"
      then have "nat b = 0" by simp
      with hi pos show False by simp
    qed
    have cl: "of_int c - 1 < 1 / x" and cu: "1 / x \<le> of_int c"
      unfolding c_def by linarith+
    have "(2::real) ^ nat (b - 1) \<le> of_int (c - 1)"
      using lo by (metis of_int_le_iff of_int_numeral of_int_power)
    with cl have "2 ^ nat (b - 1) < 1 / x" by simp
    then have l: "2 powi (b - 1) < 1 / x"
      using b1 by (simp add: power_int_nonneg_exp)
    have "c \<le> 2 ^ nat b" using hi by simp
    then have "(of_int c :: real) \<le> 2 ^ nat b"
      by (metis of_int_le_iff of_int_numeral of_int_power)
    with cu have "1 / x \<le> 2 ^ nat b" by linarith
    then have h: "1 / x \<le> 2 powi b"
      using b1 by (simp add: power_int_nonneg_exp)
    have p1: "0 < (2::real) powi b" and p2: "0 < (2::real) powi (b - 1)" by simp_all
    from h assms p1 have "1 / 2 powi b \<le> x"
      by (simp add: field_simps)
    then have r1: "2 powi (- b) \<le> x" by (simp add: power_int_minus_divide)
    from l assms p2 have "x < 1 / 2 powi (b - 1)"
      by (simp add: field_simps)
    then have r2: "x < 2 powi (- b + 1)"
      by (metis minus_diff_eq power_int_minus_divide uminus_add_conv_diff add.commute)
    from r1 r2 False show ?thesis by (simp add: ilog2_def b_def c_def)
  qed
  then show "2 powi ilog2 x \<le> x" and "x < 2 powi (ilog2 x + 1)" by simp_all
qed

lemma ilog2_unique:
  assumes "2 powi k \<le> x" and "x < 2 powi (k + 1)"
  shows "ilog2 x = k"
proof -
  have "0 < (2::real) powi k" by simp
  with assms(1) have pos: "0 < x" by linarith
  note b = ilog2_bounds [OF pos]
  have "(2::real) powi k < 2 powi (ilog2 x + 1)" using assms(1) b(2) by linarith
  then have "k < ilog2 x + 1" by (simp only: powi2_less_iff)
  moreover have "(2::real) powi ilog2 x < 2 powi (k + 1)" using assms(2) b(1) by linarith
  then have "ilog2 x < k + 1" by (simp only: powi2_less_iff)
  ultimately show ?thesis by simp
qed

lemma ilog2_mono:
  assumes "0 < x" and "x \<le> y"
  shows "ilog2 x \<le> ilog2 y"
proof -
  from assms have "0 < y" by simp
  from ilog2_bounds(1) [OF assms(1)] ilog2_bounds(2) [OF \<open>0 < y\<close>] assms(2)
  have "(2::real) powi ilog2 x < 2 powi (ilog2 y + 1)" by linarith
  then have "ilog2 x < ilog2 y + 1" by (simp only: powi2_less_iff)
  then show ?thesis by simp
qed

lemma ulp_exponent_minus: "ulp_exponent (- x) = ulp_exponent x"
  by (simp add: ulp_exponent_def)

lemma ulp_exponent_ge: "- 1074 \<le> ulp_exponent x"
  by (simp add: ulp_exponent_def)

lemma ulp_exponent_upper:
  assumes "x \<noteq> 0"
  shows "\<bar>x\<bar> < 2 powi (ulp_exponent x + 53)"
proof -
  from assms have pos: "0 < \<bar>x\<bar>" by simp
  have "ilog2 \<bar>x\<bar> + 1 \<le> ulp_exponent x + 53" by (simp add: ulp_exponent_def)
  then have "(2::real) powi (ilog2 \<bar>x\<bar> + 1) \<le> 2 powi (ulp_exponent x + 53)"
    by (simp only: powi2_le_iff)
  with ilog2_bounds(2) [OF pos] show ?thesis by linarith
qed

lemma ulp_exponent_lower:
  assumes "x \<noteq> 0" and "- 1074 < ulp_exponent x"
  shows "2 powi (ulp_exponent x + 52) \<le> \<bar>x\<bar>"
proof -
  from assms have pos: "0 < \<bar>x\<bar>" by simp
  from assms(2) have "ulp_exponent x + 52 = ilog2 \<bar>x\<bar>"
    by (simp add: ulp_exponent_def max_def split: if_splits)
  with ilog2_bounds(1) [OF pos] show ?thesis by simp
qed

lemma ulp_exponent_mono:
  assumes "0 < x" and "x \<le> y"
  shows "ulp_exponent x \<le> ulp_exponent y"
  using ilog2_mono [of "\<bar>x\<bar>" "\<bar>y\<bar>"] assms by (simp add: ulp_exponent_def)

lemma mantissa_bound:
  assumes "x \<noteq> 0"
  shows "\<bar>x / 2 powi ulp_exponent x\<bar> < 2 ^ 53"
proof -
  have p: "0 < (2::real) powi ulp_exponent x" by simp
  have "\<bar>x\<bar> < 2 powi ulp_exponent x * 2 ^ 53"
    using ulp_exponent_upper [OF assms] by (simp add: power_int_add)
  then have "\<bar>x\<bar> / 2 powi ulp_exponent x < 2 ^ 53"
    using p by (simp add: field_simps)
  then show ?thesis by (simp add: abs_divide)
qed

lemma rne_zero: "rne 0 = 0"
  by (simp add: rne_def)

lemma rne_minus: "rne (- x) = - rne x"
  by (simp add: rne_def ulp_exponent_minus py_round_minus)

lemma rne_nonneg:
  assumes "0 \<le> x"
  shows "0 \<le> rne x"
proof (cases "x = 0")
  case True
  then show ?thesis by (simp add: rne_def)
next
  case False
  have "0 \<le> x / 2 powi ulp_exponent x" using assms by simp
  then have "0 \<le> py_round (x / 2 powi ulp_exponent x)"
    using py_round_ge [of 0] by simp
  then show ?thesis using False by (simp add: rne_def)
qed

lemma rne_fix:
  assumes "\<bar>m\<bar> < 2 ^ 53" and "- 1074 \<le> e"
  shows "rne (of_int m * 2 powi e) = of_int m * 2 powi e"
proof (cases "m = 0")
  case True
  then show ?thesis by (simp add: rne_def)
next
  case False
  define x :: real where "x = of_int m * 2 powi e"
  have nz: "x \<noteq> 0" using False by (simp add: x_def)
  then have pos: "0 < \<bar>x\<bar>" by simp
  have "\<bar>real_of_int m\<bar> < 2 ^ 53"
    using assms(1) by (metis of_int_abs of_int_less_iff of_int_numeral of_int_power)
  then have "\<bar>x\<bar> < 2 ^ 53 * 2 powi e"
    by (simp add: x_def abs_mult)
  then have "\<bar>x\<bar> < 2 powi (53 + e)" by (simp add: power_int_add)
  with ilog2_bounds(1) [OF pos] have "(2::real) powi ilog2 \<bar>x\<bar> < 2 powi (53 + e)" by linarith
  then have "ilog2 \<bar>x\<bar> < 53 + e" by (simp only: powi2_less_iff)
  with assms(2) have le: "ulp_exponent x \<le> e" by (simp add: ulp_exponent_def)
  define u where "u = ulp_exponent x"
  define k where "k = nat (e - u)"
  have e: "e = u + int k" using le by (simp add: k_def u_def)
  have pe: "(2::real) powi e = 2 powi u * 2 ^ k"
    unfolding e by (simp add: power_int_add)
  have "x / 2 powi u = of_int m * (2 powi u * 2 ^ k) / 2 powi u"
    unfolding x_def pe by simp
  also have "\<dots> = of_int m * 2 ^ k" by simp
  also have "\<dots> = of_int (m * 2 ^ k)" by simp
  finally have "py_round (x / 2 powi u) = m * 2 ^ k"
    by (simp only: py_round_of_int)
  then have "rne x = of_int (m * 2 ^ k) * 2 powi u"
    using nz by (simp add: rne_def u_def)
  also have "\<dots> = of_int m * (2 powi u * 2 ^ k)" by simp
  also have "\<dots> = x" unfolding x_def pe ..
  finally show ?thesis by (simp add: x_def)
qed

lemma rne_form:
  "\<exists>m e. rne x = of_int m * 2 powi e \<and> \<bar>m\<bar> < 2 ^ 53 \<and> - 1074 \<le> e"
proof (cases "x = 0")
  case True
  have "rne x = of_int 0 * 2 powi 0 \<and> \<bar>0::int\<bar> < 2 ^ 53 \<and> - 1074 \<le> (0::int)"
    using True by (simp add: rne_def)
  then show ?thesis by blast
next
  case False
  define u where "u = ulp_exponent x"
  define n where "n = py_round (x / 2 powi u)"
  have r: "rne x = of_int n * 2 powi u" using False by (simp add: rne_def n_def u_def)
  have b: "\<bar>x / 2 powi u\<bar> < 2 ^ 53" unfolding u_def by (rule mantissa_bound [OF False])
  have eq53: "real_of_int (2 ^ 53) = 2 ^ 53" "real_of_int (- (2 ^ 53)) = - (2 ^ 53)" by simp_all
  have "x / 2 powi u \<le> of_int (2 ^ 53)" and "of_int (- (2 ^ 53)) \<le> x / 2 powi u"
    using b unfolding eq53 by linarith+
  then have "n \<le> 2 ^ 53" and "- (2 ^ 53) \<le> n"
    unfolding n_def by (simp_all only: py_round_le py_round_ge)
  then consider "\<bar>n\<bar> < 2 ^ 53" | "n = 2 ^ 53" | "n = - (2 ^ 53)" by linarith
  then show ?thesis
  proof cases
    case 1
    with r ulp_exponent_ge [of x] show ?thesis unfolding u_def by blast
  next
    case 2
    have "rne x = of_int 1 * 2 powi (u + 53)" unfolding r 2 by (simp add: power_int_add)
    moreover have "- 1074 \<le> u + 53" using ulp_exponent_ge [of x] by (simp add: u_def)
    moreover have "\<bar>1::int\<bar> < 2 ^ 53" by simp
    ultimately show ?thesis by blast
  next
    case 3
    have "rne x = of_int (- 1) * 2 powi (u + 53)" unfolding r 3 by (simp add: power_int_add)
    moreover have "- 1074 \<le> u + 53" using ulp_exponent_ge [of x] by (simp add: u_def)
    moreover have "\<bar>- 1::int\<bar> < 2 ^ 53" by simp
    ultimately show ?thesis by blast
  qed
qed

lemma rne_idem: "rne (rne x) = rne x"
proof -
  obtain m e where "rne x = of_int m * 2 powi e" "\<bar>m\<bar> < 2 ^ 53" "- 1074 \<le> e"
    using rne_form by blast
  then show ?thesis by (simp add: rne_fix)
qed

lemma rne_pos_upper:
  assumes "0 < x"
  shows "rne x \<le> 2 powi (ulp_exponent x + 53)"
proof -
  from assms have nz: "x \<noteq> 0" by simp
  have eq53: "real_of_int (2 ^ 53) = 2 ^ 53" by simp
  have "x / 2 powi ulp_exponent x \<le> of_int (2 ^ 53)"
    using mantissa_bound [OF nz] unfolding eq53 by linarith
  then have "py_round (x / 2 powi ulp_exponent x) \<le> 2 ^ 53" by (rule py_round_le)
  then have "real_of_int (py_round (x / 2 powi ulp_exponent x)) \<le> 2 ^ 53"
    by (metis of_int_le_iff of_int_numeral of_int_power)
  then have "real_of_int (py_round (x / 2 powi ulp_exponent x)) * 2 powi ulp_exponent x
      \<le> 2 ^ 53 * 2 powi ulp_exponent x"
    by (intro mult_right_mono) simp_all
  then show ?thesis using nz by (simp add: rne_def power_int_add)
qed

lemma rne_pos_lower:
  assumes "0 < x" and "- 1074 < ulp_exponent x"
  shows "2 powi (ulp_exponent x + 52) \<le> rne x"
proof -
  from assms have nz: "x \<noteq> 0" by simp
  have p: "0 < (2::real) powi ulp_exponent x" by simp
  have "2 powi ulp_exponent x * 2 ^ 52 \<le> x"
    using ulp_exponent_lower [OF nz assms(2)] assms(1) by (simp add: power_int_add)
  then have "of_int (2 ^ 52) \<le> x / 2 powi ulp_exponent x"
    using p by (simp add: field_simps)
  then have "2 ^ 52 \<le> py_round (x / 2 powi ulp_exponent x)" by (rule py_round_ge)
  then have "2 ^ 52 \<le> real_of_int (py_round (x / 2 powi ulp_exponent x))"
    by (metis of_int_le_iff of_int_numeral of_int_power)
  then have "2 ^ 52 * 2 powi ulp_exponent x
      \<le> real_of_int (py_round (x / 2 powi ulp_exponent x)) * 2 powi ulp_exponent x"
    by (intro mult_right_mono) simp_all
  then show ?thesis using nz by (simp add: rne_def power_int_add)
qed

lemma rne_mono_pos:
  assumes "0 < x" and "x \<le> y"
  shows "rne x \<le> rne y"
proof (cases "ulp_exponent x = ulp_exponent y")
  case True
  have "x / 2 powi ulp_exponent y \<le> y / 2 powi ulp_exponent y"
    using assms(2) by (simp add: divide_right_mono)
  then have "py_round (x / 2 powi ulp_exponent y) \<le> py_round (y / 2 powi ulp_exponent y)"
    by (rule py_round_mono)
  then have "real_of_int (py_round (x / 2 powi ulp_exponent y)) * 2 powi ulp_exponent y
      \<le> real_of_int (py_round (y / 2 powi ulp_exponent y)) * 2 powi ulp_exponent y"
    by (intro mult_right_mono) simp_all
  with assms True show ?thesis by (simp add: rne_def)
next
  case False
  from assms have ypos: "0 < y" by simp
  from False ulp_exponent_mono [OF assms] have lt: "ulp_exponent x + 1 \<le> ulp_exponent y" by simp
  with ulp_exponent_ge [of x] have "- 1074 < ulp_exponent y" by linarith
  from rne_pos_lower [OF ypos this] have "2 powi (ulp_exponent y + 52) \<le> rne y" .
  moreover have "(2::real) powi (ulp_exponent x + 53) \<le> 2 powi (ulp_exponent y + 52)"
    using lt by (simp only: powi2_le_iff)
  ultimately show ?thesis using rne_pos_upper [OF assms(1)] by linarith
qed

lemma rne_mono:
  assumes "x \<le> y"
  shows "rne x \<le> rne y"
proof -
  consider "0 < x" | "x \<le> 0" "0 \<le> y" | "y < 0" using assms by linarith
  then show ?thesis
  proof cases
    case 1
    then show ?thesis using assms by (rule rne_mono_pos)
  next
    case 2
    from rne_nonneg [of "- x"] 2(1) have "rne x \<le> 0" by (simp add: rne_minus)
    with rne_nonneg [OF 2(2)] show ?thesis by linarith
  next
    case 3
    with assms have "0 < - y" "- y \<le> - x" by simp_all
    then have "rne (- y) \<le> rne (- x)" by (rule rne_mono_pos)
    then show ?thesis by (simp add: rne_minus)
  qed
qed

text \<open>Rewriting with these evaluates the float operations on numerals.\<close>

lemmas float_eval = fl_def rne_def ulp_exponent_def ilog2_def compute_bitlen py_round_def
  max_double_def Let_def power_int_minus

lemmas convert_eval = convert_units_def y_scale_of_def x_out_of_def y_out_of_def truediv_def
  float_of_int_def fsub_def

lemma max_double_pos: "0 < max_double"
  by (simp add: max_double_def)

lemma fl_Finite_iff:
  "fl x = Finite r \<longleftrightarrow> r = rne x \<and> - max_double \<le> rne x \<and> rne x \<le> max_double"
  using max_double_pos by (auto simp add: fl_def Let_def)

lemma fl_not_NaN: "fl x \<noteq> NaN"
  by (simp add: fl_def Let_def)

lemma fl_PInf_iff: "fl x = PInf \<longleftrightarrow> max_double < rne x"
  by (simp add: fl_def Let_def)

lemma fl_NInf_iff: "fl x = NInf \<longleftrightarrow> rne x < - max_double"
  using max_double_pos by (auto simp add: fl_def Let_def)

lemma fl_cases: "fl x = Finite (rne x) \<or> fl x = PInf \<or> fl x = NInf"
  by (simp add: fl_def Let_def)

lemma fl_zero: "fl 0 = Finite 0"
  using max_double_pos by (simp add: fl_def rne_zero)

lemma fl_minus: "fl (- x) = fneg (fl x)"
  using max_double_pos by (auto simp add: fl_def Let_def rne_minus)

lemma is_double_iff: "is_double r \<longleftrightarrow> rne r = r \<and> \<bar>r\<bar> \<le> max_double"
  by (auto simp add: is_double_def fl_Finite_iff)

lemma is_double_fl:
  assumes "fl x = Finite r"
  shows "is_double r"
  using assms by (auto simp add: is_double_iff fl_Finite_iff rne_idem)

lemma fl_is_double: "is_double r \<Longrightarrow> fl r = Finite r"
  by (simp add: is_double_def)

lemma is_double_zero: "is_double 0"
  by (simp add: is_double_def fl_zero)

lemma is_double_minus: "is_double (- r) = is_double r"
  by (simp add: is_double_iff rne_minus)

lemma is_double_form:
  assumes "is_double r"
  shows "\<exists>m e. r = of_int m * 2 powi e \<and> \<bar>m\<bar> < 2 ^ 53 \<and> - 1074 \<le> e"
proof -
  from assms have "rne r = r" by (simp add: is_double_iff)
  with rne_form [of r] show ?thesis by simp
qed

lemma is_double_grid:
  assumes "is_double r"
  shows "\<exists>k::int. r = of_int k * 2 powi (- 1074)"
proof -
  from is_double_form [OF assms] obtain m e
    where r: "r = of_int m * 2 powi e" and e: "- 1074 \<le> e" by blast
  define j where "j = nat (e + 1074)"
  have "e = - 1074 + int j" using e by (simp add: j_def)
  then have "(2::real) powi e = 2 powi (- 1074) * 2 ^ j"
    by (metis power_int_add power_int_of_nat zero_neq_numeral)
  then have "r = of_int (m * 2 ^ j) * 2 powi (- 1074)" by (simp add: r)
  then show ?thesis ..
qed

lemma is_double_int:
  assumes "\<bar>n\<bar> \<le> 2 ^ 53"
  shows "is_double (of_int n)"
proof -
  have fixed: "rne (of_int n) = of_int n"
  proof (cases "\<bar>n\<bar> < 2 ^ 53")
    case True
    from rne_fix [OF True, of 0] show ?thesis by simp
  next
    case False
    with assms have "n = 2 ^ 53 \<or> n = - (2 ^ 53)" by linarith
    then have "real_of_int n = of_int 1 * 2 powi 53 \<or> real_of_int n = of_int (- 1) * 2 powi 53"
      by auto
    then show ?thesis
      using rne_fix [of 1 53] rne_fix [of "- 1" 53] by auto
  qed
  have "\<bar>real_of_int n\<bar> \<le> 2 ^ 53"
    using assms by (metis of_int_abs of_int_le_iff of_int_numeral of_int_power)
  also have "\<dots> \<le> max_double" by (simp add: max_double_def)
  finally show ?thesis using fixed by (simp add: is_double_iff)
qed

lemma is_double_twice:
  assumes "is_double d" and "\<bar>2 * d\<bar> \<le> max_double"
  shows "is_double (2 * d)"
proof -
  from is_double_form [OF assms(1)] obtain m e
    where d: "d = of_int m * 2 powi e" and m: "\<bar>m\<bar> < 2 ^ 53" and e: "- 1074 \<le> e" by blast
  have "2 * d = of_int m * 2 powi (e + 1)" by (simp add: d power_int_add)
  moreover from e have "- 1074 \<le> e + 1" by simp
  ultimately have "rne (2 * d) = 2 * d" using rne_fix [OF m, of "e + 1"] by simp
  with assms(2) show ?thesis by (simp add: is_double_iff)
qed

lemma rne_diff_pos:
  assumes "is_double a" and "is_double b" and "a < b"
  shows "0 < rne (b - a)"
proof -
  from is_double_grid [OF assms(1)] obtain k where a: "a = of_int k * 2 powi (- 1074)" by blast
  from is_double_grid [OF assms(2)] obtain l where b: "b = of_int l * 2 powi (- 1074)" by blast
  have p: "0 < (2::real) powi (- 1074)" by simp
  from assms(3) have "real_of_int k * 2 powi (- 1074) < real_of_int l * 2 powi (- 1074)"
    by (simp only: a b)
  with p have "real_of_int k < real_of_int l" by (simp only: mult_less_cancel_right_pos)
  then have "k + 1 \<le> l" by simp
  then have "real_of_int k + 1 \<le> real_of_int l" by linarith
  then have "(real_of_int k + 1) * 2 powi (- 1074) \<le> real_of_int l * 2 powi (- 1074)"
    using p by (simp only: mult_le_cancel_right_pos)
  then have "2 powi (- 1074) \<le> b - a" by (simp add: a b algebra_simps)
  then have "rne (2 powi (- 1074)) \<le> rne (b - a)" by (rule rne_mono)
  moreover have "rne (2 powi (- 1074)) = 2 powi (- 1074)"
    using rne_fix [of 1 "- 1074"] by simp
  ultimately show ?thesis using p by linarith
qed

lemma comprehension_Inr:
  assumes "comprehension f xs = Inr ys"
  shows "length ys = length xs \<and> (\<forall>i<length xs. f (xs ! i) = Inr (ys ! i))"
  using assms
proof (induction xs arbitrary: ys)
  case Nil
  then show ?case by simp
next
  case (Cons x xs)
  from Cons.prems obtain y ys' where y: "f x = Inr y" and r: "comprehension f xs = Inr ys'"
    and ys: "ys = y # ys'"
    by (auto split: sum.splits)
  from Cons.IH [OF r] y ys show ?case by (auto simp add: nth_Cons split: nat.splits)
qed

lemma comprehension_Inl:
  assumes "comprehension f xs = Inl e"
  shows "\<exists>x\<in>set xs. f x = Inl e"
  using assms by (induction xs) (auto split: sum.splits)

lemma convert_loop_comprehension:
  "convert_loop xmin x_scale ymid y_scale yspan xspan trend acc =
     (case comprehension (sample_pair xmin x_scale ymid y_scale yspan xspan) trend of
        Inl e \<Rightarrow> Inl e
      | Inr ps \<Rightarrow> Inr (acc @ ps))"
proof (induction trend arbitrary: acc)
  case Nil
  then show ?case by simp
next
  case (Cons p trend)
  show ?case
    by (simp add: Cons.IH sample_pair_def Let_def split: sum.splits)
qed

lemma convert_units_comprehension:
  "convert_units trend [ymax, ymid, ymin] (xmin, xmax) yspan xspan =
     comprehension (sample_pair xmin (fsub xmax xmin) ymid (y_scale_of ymax ymid ymin) yspan xspan)
       trend"
  by (simp add: convert_units_def Let_def convert_loop_comprehension split: sum.splits)

lemma fsub_Finite: "fsub (Finite a) (Finite b) = fl (a - b)"
  by (simp add: fsub_def)

lemma fsub_Finite_inv:
  assumes "fsub x m = Finite d"
  shows "\<exists>a c. x = Finite a \<and> m = Finite c \<and> fl (a - c) = Finite d"
  using assms by (cases x; cases m) (simp_all add: fsub_def)

lemma fmul_Finite_inv:
  assumes "fmul (Finite a) q = Finite r"
  shows "\<exists>b. q = Finite b \<and> fl (a * b) = Finite r"
  using assms by (cases q) (simp_all split: if_splits)

lemma fmul_Finite_result:
  assumes "fmul v q = Finite r" and "v = PInf \<or> v = NInf"
  shows False
  using assms by (cases q) (auto split: if_splits)

lemma fquot_Finite_inv:
  assumes "fquot d (Finite s) = Finite b" and "s \<noteq> 0"
  shows "\<exists>dd. d = Finite dd \<and> fl (dd / s) = Finite b"
  using assms by (cases d) (simp_all split: if_splits)

lemma fquot_PInf_inv:
  assumes "fquot d PInf = Finite b"
  shows "(\<exists>dd. d = Finite dd) \<and> b = 0"
  using assms by (cases d) simp_all

lemma x_out_of_value:
  assumes "x_scale \<noteq> Finite 0" and "day_value xmin x_scale xspan x = Finite r"
  shows "x_out_of xmin x_scale xspan x = Inr (1 + py_round r)"
proof -
  from fl_cases [of "of_int xspan"] assms(2) obtain xs where xs: "fl (of_int xspan) = Finite xs"
    unfolding day_value_def using fmul_Finite_result by metis
  with assms show ?thesis
    by (simp add: x_out_of_def truediv_def float_of_int_def day_value_def)
qed

lemma x_out_of_Inr:
  assumes "x_out_of xmin x_scale xspan x = Inr n"
  shows "\<exists>r. day_value xmin x_scale xspan x = Finite r \<and> n = 1 + py_round r"
proof -
  from assms obtain xs where xs: "fl (of_int xspan) = Finite xs"
    by (auto simp add: x_out_of_def truediv_def float_of_int_def split: if_splits sum.splits pyfloat.splits)
  from assms xs obtain r where "fmul (Finite xs) (fquot (fsub x xmin) x_scale) = Finite r"
    and "n = 1 + py_round r"
    by (cases "fmul (Finite xs) (fquot (fsub x xmin) x_scale)")
       (auto simp add: x_out_of_def truediv_def float_of_int_def split: if_splits)
  with xs show ?thesis by (simp add: day_value_def)
qed

lemma x_out_of_error:
  assumes "x_out_of xmin x_scale xspan x = Inl e" and "x_scale \<noteq> Finite 0"
  shows "e = OverflowError \<or> e = ValueError ''cannot convert float NaN to integer''"
proof -
  show ?thesis
  proof (cases "fl (of_int xspan)")
    case (Finite xs)
    with assms show ?thesis
      by (cases "fmul (Finite xs) (fquot (fsub x xmin) x_scale)")
         (auto simp add: x_out_of_def truediv_def float_of_int_def)
  next
    case PInf
    with assms show ?thesis by (simp add: x_out_of_def truediv_def float_of_int_def)
  next
    case NInf
    with assms show ?thesis by (simp add: x_out_of_def truediv_def float_of_int_def)
  next
    case NaN
    with assms show ?thesis by (simp add: x_out_of_def truediv_def float_of_int_def)
  qed
qed

lemma y_out_of_cases:
  "y_out_of ymid y_scale yspan y =
     (if y_scale = Finite 0 then Inl ZeroDivisionError
      else (case to_float yspan of
              Inl e \<Rightarrow> Inl e
            | Inr ys \<Rightarrow> Inr (fmul ys (fquot (fsub ymid y) y_scale))))"
  by (simp add: y_out_of_def truediv_def)

lemma to_float_error:
  assumes "to_float yspan = Inl e"
  shows "e = OverflowError"
  using assms by (cases yspan) (auto simp add: float_of_int_def split: pyfloat.splits)

lemma fl_mono:
  assumes "x \<le> y" and "fl x = Finite a" and "fl y = Finite b"
  shows "a \<le> b"
  using assms rne_mono [OF assms(1)] by (simp add: fl_Finite_iff)

lemma fsub_positive:
  assumes "fless xmin xmax" and "is_float xmin" and "is_float xmax"
  shows "fsub xmax xmin = PInf \<or> (\<exists>s. 0 < s \<and> fsub xmax xmin = Finite s)"
proof (cases xmin)
  case (Finite a)
  note xmin = this
  show ?thesis
  proof (cases xmax)
    case (Finite b)
    with xmin assms have ab: "a < b" and da: "is_double a" and db: "is_double b" by simp_all
    have pos: "0 < rne (b - a)" by (rule rne_diff_pos [OF da db ab])
    from fl_cases [of "b - a"] show ?thesis
    proof (elim disjE)
      assume "fl (b - a) = Finite (rne (b - a))"
      with pos xmin Finite show ?thesis by (simp add: fsub_Finite)
    next
      assume "fl (b - a) = PInf"
      with xmin Finite show ?thesis by (simp add: fsub_Finite)
    next
      assume "fl (b - a) = NInf"
      then have "rne (b - a) < - max_double" by (simp add: fl_NInf_iff)
      with pos max_double_pos show ?thesis by linarith
    qed
  next
    case PInf
    with xmin show ?thesis by (simp add: fsub_def)
  next
    case NInf
    with xmin assms show ?thesis by simp
  next
    case NaN
    with xmin assms show ?thesis by simp
  qed
next
  case PInf
  with assms show ?thesis by (cases xmax) simp_all
next
  case NInf
  with assms show ?thesis by (cases xmax) (simp_all add: fsub_def)
next
  case NaN
  with assms show ?thesis by simp
qed

lemma day_value_mono:
  assumes less: "fless x1 x2"
    and scale: "x_scale = PInf \<or> (\<exists>s. 0 < s \<and> x_scale = Finite s)"
    and span: "0 \<le> xspan"
    and v1: "day_value xmin x_scale xspan x1 = Finite r1"
    and v2: "day_value xmin x_scale xspan x2 = Finite r2"
  shows "r1 \<le> r2"
proof -
  obtain xs where xs: "fl (of_int xspan) = Finite xs"
    using fl_cases [of "of_int xspan"] v1 fmul_Finite_result unfolding day_value_def by metis
  have xs0: "0 \<le> xs"
  proof -
    from span have "(0::real) \<le> of_int xspan" by simp
    from rne_nonneg [OF this] xs show ?thesis by (simp add: fl_Finite_iff)
  qed
  from v1 xs obtain b1 where q1: "fquot (fsub x1 xmin) x_scale = Finite b1"
    and f1: "fl (xs * b1) = Finite r1"
    unfolding day_value_def using fmul_Finite_inv by metis
  from v2 xs obtain b2 where q2: "fquot (fsub x2 xmin) x_scale = Finite b2"
    and f2: "fl (xs * b2) = Finite r2"
    unfolding day_value_def using fmul_Finite_inv by metis
  have "b1 \<le> b2"
  proof (cases "x_scale = PInf")
    case True
    with q1 q2 fquot_PInf_inv show ?thesis by auto
  next
    case False
    with scale obtain s where s: "0 < s" "x_scale = Finite s" by blast
    from q1 s obtain d1 where d1: "fsub x1 xmin = Finite d1" and g1: "fl (d1 / s) = Finite b1"
      using fquot_Finite_inv [of "fsub x1 xmin" s b1] by auto
    from q2 s obtain d2 where d2: "fsub x2 xmin = Finite d2" and g2: "fl (d2 / s) = Finite b2"
      using fquot_Finite_inv [of "fsub x2 xmin" s b2] by auto
    from fsub_Finite_inv [OF d1] obtain a1 c1
      where e1: "x1 = Finite a1" "xmin = Finite c1" "fl (a1 - c1) = Finite d1" by blast
    from fsub_Finite_inv [OF d2] obtain a2 c2
      where e2: "x2 = Finite a2" "xmin = Finite c2" "fl (a2 - c2) = Finite d2" by blast
    from e1 e2 have c: "c2 = c1" by simp
    from less e1 e2 have "a1 - c1 \<le> a2 - c1" by simp
    from fl_mono [OF this e1(3)] e2(3) c have "d1 \<le> d2" by simp
    then have "d1 / s \<le> d2 / s" using s(1) by (simp add: divide_right_mono)
    from fl_mono [OF this g1 g2] show ?thesis .
  qed
  then have "xs * b1 \<le> xs * b2" using xs0 by (rule mult_left_mono)
  from fl_mono [OF this f1 f2] show ?thesis .
qed

section \<open>Auxiliary facts: convert\_units\<close>

lemma sample_pair_value:
  assumes "x_scale \<noteq> Finite 0" and "y_scale \<noteq> Finite 0" and "to_float yspan = Inr ys"
    and "day_value xmin x_scale xspan (p_real p) = Finite d"
  shows "sample_pair xmin x_scale ymid y_scale yspan xspan p =
         Inr (1 + py_round d, fmul ys (fquot (fsub ymid (p_imag p)) y_scale))"
  using assms by (simp add: sample_pair_def x_out_of_value y_out_of_cases)

lemma sample_pair_Inr:
  assumes "sample_pair xmin x_scale ymid y_scale yspan xspan p = Inr v"
  shows "x_out_of xmin x_scale xspan (p_real p) = Inr (fst v)"
  using assms by (cases v) (auto simp add: sample_pair_def split: sum.splits)


section \<open>Auxiliary facts: categorise\_paths\<close>

lemma comprehension_total:
  assumes "\<And>x. x \<in> set xs \<Longrightarrow> f x = Inr (g x)"
  shows "comprehension f xs = Inr (map g xs)"
  using assms by (induction xs) simp_all

lemma single_segment_path:
  assumes "len p = 1"
  shows "segments p = [hd (segments p)]"
  using assms by (cases "segments p") (simp_all add: len_def)

lemma path_start_single:
  assumes "len p = 1"
  shows "path_start p = Inr (seg_start (hd (segments p)))"
  using single_segment_path [OF assms] by (cases "segments p") (simp_all add: path_start_def)

lemma path_end_single:
  assumes "len p = 1"
  shows "path_end p = Inr (seg_end (hd (segments p)))"
  using single_segment_path [OF assms] by (cases "segments p") (simp_all add: path_end_def)

lemma candidates_single:
  assumes "p \<in> set (fst (reference_candidates paths))"
  shows "len p = 1"
proof -
  have "set (fst (reference_candidates paths)) \<subseteq> {x \<in> set paths. len x = 1}"
    by (auto simp add: reference_candidates_def Let_def slice_to_def dest: in_set_takeD)
  with assms show ?thesis by auto
qed

lemma short_trends_single:
  assumes "p \<in> set (snd (reference_candidates paths))"
  shows "len p = 1"
proof -
  have "set (snd (reference_candidates paths)) \<subseteq> {x \<in> set paths. len x = 1}"
    by (auto simp add: reference_candidates_def Let_def slice_to_def dest: in_set_takeD)
  with assms show ?thesis by auto
qed

lemma length_reference_candidates:
  "length (fst (reference_candidates paths)) = min 5 (length (filter (\<lambda>p. len p = 1) paths))"
  by (simp add: reference_candidates_def Let_def slice_to_def)

text \<open>What lines 113 to 116 keep from more than five single-segment paths: the first
  five of the list sorted by arc length, and as short trends all but its last five.\<close>

lemma reference_candidates_more_than_five:
  assumes "5 < length (filter (\<lambda>path. len path = 1) paths)"
  shows "reference_candidates paths =
           (take 5 (sort_key arc_length (filter (\<lambda>path. len path = 1) paths)),
            take (length (filter (\<lambda>path. len path = 1) paths) - 5)
              (sort_key arc_length (filter (\<lambda>path. len path = 1) paths)))"
  using assms by (simp add: reference_candidates_def Let_def slice_to_def)

lemma start_ys_total:
  assumes "\<And>p. p \<in> set lines \<Longrightarrow> len p = 1"
  shows "start_ys lines = Inr (sort (map (\<lambda>p. Im (seg_start (hd (segments p)))) lines))"
proof -
  have "comprehension (\<lambda>path. map_sum id Im (path_start path)) lines
        = Inr (map (\<lambda>p. Im (seg_start (hd (segments p)))) lines)"
    by (rule comprehension_total) (simp add: path_start_single assms)
  then show ?thesis by (simp add: start_ys_def)
qed

lemma x_limits_total:
  "x_limits paths =
     (let singles = filter (\<lambda>p. len p = 1) paths
      in if 1 < length singles
         then Inr (Re (seg_start (hd (segments (singles ! 1)))),
                   Re (seg_end (hd (segments (singles ! 1)))))
         else Inl IndexError)"
proof -
  have "comprehension
          (\<lambda>path. case path_start path of
                     Inl e \<Rightarrow> Inl e
                   | Inr s \<Rightarrow> (case path_end path of
                                 Inl e \<Rightarrow> Inl e
                               | Inr e \<Rightarrow> Inr (Re s, Re e)))
          (filter (\<lambda>p. len p = 1) paths)
        = Inr (map (\<lambda>p. (Re (seg_start (hd (segments p))), Re (seg_end (hd (segments p)))))
                 (filter (\<lambda>p. len p = 1) paths))"
    by (rule comprehension_total) (simp add: path_start_single path_end_single)
  then show ?thesis by (simp add: x_limits_def Let_def)
qed

lemma continuous_subpaths_nonempty: "[] \<notin> set (continuous_subpaths segs)"
  by (induction segs rule: continuous_subpaths.induct) (auto split: list.splits)

lemma concat_continuous_subpaths: "concat (continuous_subpaths segs) = segs"
  by (induction segs rule: continuous_subpaths.induct) (auto split: list.splits)

lemma continuous_subpaths_Cons:
  "\<exists>run runs. continuous_subpaths (s # segs) = (s # run) # runs"
  by (cases segs) (auto split: list.splits)

text \<open>The decomposition is into maximal continuous runs (with
  \<open>continuous_subpaths_nonempty\<close> and \<open>concat_continuous_subpaths\<close>: non-empty runs
  that concatenate to the path).\<close>

lemma continuous_subpaths_runs:
  "list_all iscontinuous (continuous_subpaths segs) \<and> runs_maximal (continuous_subpaths segs)"
proof (induction segs rule: continuous_subpaths.induct)
  case 1
  then show ?case by simp
next
  case (2 s)
  then show ?case by simp
next
  case (3 s t rest)
  obtain run runs where eq: "continuous_subpaths (t # rest) = (t # run) # runs"
    using continuous_subpaths_Cons by blast
  show ?case
  proof (cases "seg_end s = seg_start t")
    case True
    with 3 eq show ?thesis by (cases runs) auto
  next
    case False
    with 3 eq show ?thesis by auto
  qed
qed

lemma subpath_loop_total:
  assumes "[] \<notin> set runs"
  shows "subpath_loop runs points =
         Inr (points @ concat (map (\<lambda>run. map seg_start run @ [seg_end (last run)]) runs))"
  using assms
proof (induction runs arbitrary: points)
  case Nil
  then show ?case by simp
next
  case (Cons run runs)
  then obtain s ss where "run = s # ss" by (cases run) auto
  with Cons show ?case by simp
qed

lemma trend_loop_total:
  assumes "\<And>t. t \<in> set trends \<Longrightarrow> segments t \<noteq> []"
  shows "trend_loop trends points = Inr (points @ concat (map sample_points trends))"
  using assms
proof (induction trends arbitrary: points)
  case Nil
  then show ?case by simp
next
  case (Cons t trends)
  then obtain s ss where seg: "segments t = s # ss" by (cases "segments t") auto
  have rest: "\<And>pts. trend_loop trends pts = Inr (pts @ concat (map sample_points trends))"
    using Cons by simp
  show ?case
  proof (cases "is_CubicBezier s")
    case True
    obtain x0 x1 y0 y1 where bb: "bbox t = (x0, x1, y0, y1)" by (cases "bbox t") auto
    from True have "sample_points t = [Complex ((x0 + x1) / 2) ((y0 + y1) / 2)]"
      by (simp add: sample_points_def seg bb)
    with True show ?thesis
      by (simp add: seg rest bb Let_def)
  next
    case False
    then have "sample_points t =
        concat (map (\<lambda>run. map seg_start run @ [seg_end (last run)])
                  (continuous_subpaths (s # ss)))"
      by (simp add: sample_points_def seg)
    with False show ?thesis
      using subpath_loop_total [OF continuous_subpaths_nonempty, of "s # ss" points]
      by (simp add: seg rest del: continuous_subpaths.simps)
  qed
qed

lemma categorise_paths_eq:
  "categorise_paths paths =
     (let singles = filter (\<lambda>p. len p = 1) paths;
          lines = fst (reference_candidates paths);
          short = snd (reference_candidates paths);
          ys = collapse (sort (map (\<lambda>p. Im (seg_start (hd (segments p)))) lines))
      in if length ys = 3
         then Inr ((Re (seg_start (hd (segments (singles ! 1)))),
                    Re (seg_end (hd (segments (singles ! 1))))),
                   sorted_reverse ys,
                   concat (map sample_points (filter (\<lambda>p. len p > 1) paths @ short)))
         else Inl (ValueError (''Wrong number of y_lines: '' @ str_nat (length ys))))"
proof -
  define lines where "lines = fst (reference_candidates paths)"
  define short where "short = snd (reference_candidates paths)"
  define ys where "ys = collapse (sort (map (\<lambda>p. Im (seg_start (hd (segments p)))) lines))"
  have rc: "reference_candidates paths = (lines, short)"
    by (simp add: lines_def short_def)
  have sy: "start_ys lines = Inr (sort (map (\<lambda>p. Im (seg_start (hd (segments p)))) lines))"
    by (rule start_ys_total) (rule candidates_single, simp only: lines_def)
  have tl: "trend_loop (filter (\<lambda>p. len p > 1) paths @ short) [] =
            Inr (concat (map sample_points (filter (\<lambda>p. len p > 1) paths @ short)))"
  proof -
    have ne: "segments t \<noteq> []" if "t \<in> set (filter (\<lambda>p. len p > 1) paths @ short)" for t
    proof -
      from that have "len t > 1 \<or> len t = 1"
        using short_trends_single [of t paths] by (auto simp add: short_def)
      then show ?thesis by (auto simp add: len_def)
    qed
    have "trend_loop (filter (\<lambda>p. len p > 1) paths @ short) [] =
            Inr ([] @ concat (map sample_points (filter (\<lambda>p. len p > 1) paths @ short)))"
      by (rule trend_loop_total) (rule ne)
    then show ?thesis by simp
  qed
  have n: "length lines = min 5 (length (filter (\<lambda>p. len p = 1) paths))"
    by (simp add: lines_def length_reference_candidates)
  have two: "1 < length (filter (\<lambda>p. len p = 1) paths)" if "length ys = 3"
    using that n by (auto simp add: ys_def collapse_def split: if_splits)
  have step: "categorise_paths paths =
     (if length ys = 3
      then (case x_limits paths of
              Inl e \<Rightarrow> Inl e
            | Inr xlim \<Rightarrow>
                (case trend_loop (filter (\<lambda>p. len p > 1) paths @ short) [] of
                   Inl e \<Rightarrow> Inl e
                 | Inr points \<Rightarrow> Inr (xlim, sorted_reverse ys, points)))
      else Inl (ValueError (''Wrong number of y_lines: '' @ str_nat (length ys))))"
    unfolding categorise_paths_def rc
    by (simp only: prod.case sy sum.case Let_def ys_def)
  have rhs: "(let singles = filter (\<lambda>p. len p = 1) paths;
          lines = fst (reference_candidates paths);
          short = snd (reference_candidates paths);
          ys = collapse (sort (map (\<lambda>p. Im (seg_start (hd (segments p)))) lines))
      in if length ys = 3
         then Inr ((Re (seg_start (hd (segments (singles ! 1)))),
                    Re (seg_end (hd (segments (singles ! 1))))),
                   sorted_reverse ys,
                   concat (map sample_points (filter (\<lambda>p. len p > 1) paths @ short)))
         else Inl (ValueError (''Wrong number of y_lines: '' @ str_nat (length ys))))
     = (if length ys = 3
         then Inr ((Re (seg_start (hd (segments (filter (\<lambda>p. len p = 1) paths ! 1)))),
                    Re (seg_end (hd (segments (filter (\<lambda>p. len p = 1) paths ! 1))))),
                   sorted_reverse ys,
                   concat (map sample_points (filter (\<lambda>p. len p > 1) paths @ short)))
         else Inl (ValueError (''Wrong number of y_lines: '' @ str_nat (length ys))))"
    by (simp only: Let_def ys_def lines_def short_def)
  show ?thesis
  proof (cases "length ys = 3")
    case True
    from two [OF True] have xl: "x_limits paths =
        Inr (Re (seg_start (hd (segments (filter (\<lambda>p. len p = 1) paths ! 1)))),
             Re (seg_end (hd (segments (filter (\<lambda>p. len p = 1) paths ! 1)))))"
      by (simp only: x_limits_total Let_def if_True)
    show ?thesis
      unfolding step rhs by (simp only: True if_True xl tl sum.case)
  next
    case False
    show ?thesis
      unfolding step rhs by (simp only: False if_False)
  qed
qed

lemma sorted_reverse_three:
  assumes "a \<le> b" and "b \<le> c"
  shows "sorted_reverse [a, b, c] = [c, b, a]"
  using assms by (auto simp add: sorted_reverse_def)

lemma length_five:
  assumes "length ys = 5"
  shows "ys = [ys ! 0, ys ! 1, ys ! 2, ys ! 3, ys ! 4]"
  using assms by (auto simp add: list_eq_iff_nth_eq less_Suc_eq numeral_eq_Suc)

lemma reference_y_lines_total:
  "reference_y_lines paths =
     Inr (collapse (sort (map (\<lambda>p. Im (seg_start (hd (segments p))))
                            (fst (reference_candidates paths)))))"
proof -
  have "start_ys (fst (reference_candidates paths)) =
        Inr (sort (map (\<lambda>p. Im (seg_start (hd (segments p)))) (fst (reference_candidates paths))))"
    by (rule start_ys_total) (rule candidates_single)
  then show ?thesis by (simp add: reference_y_lines_def)
qed

lemmas eval_defs = categorise_paths_def reference_candidates_def start_ys_def collapse_def
  x_limits_def sorted_reverse_def slice_to_def path_start_def path_end_def len_def hline_def polyline_def curve_def
  Let_def

section \<open>Auxiliary facts: the store\<close>

lemma extends_iff: "extends h' h = (\<exists>xs. h' = h @ xs)"
proof
  assume "extends h' h"
  then have "h' = h @ drop (length h) h'"
    unfolding extends_def by (metis append_take_drop_id)
  then show "\<exists>xs. h' = h @ xs" ..
next
  assume "\<exists>xs. h' = h @ xs"
  then show "extends h' h" by (auto simp add: extends_def)
qed

lemma extends_trans: "extends h2 h1 \<Longrightarrow> extends h1 h \<Longrightarrow> extends h2 h"
  by (auto simp add: extends_iff)

lemma extends_append: "extends h1 h \<Longrightarrow> extends (h1 @ xs) h"
  by (auto simp add: extends_iff)

lemma extends_update_new: "length h \<le> a \<Longrightarrow> extends h1 h \<Longrightarrow> extends (h1[a := v]) h"
  by (auto simp add: extends_iff list_update_append)

lemma extends_nth: "extends h' h \<Longrightarrow> r < length h \<Longrightarrow> h' ! r = h ! r"
  by (auto simp add: extends_iff nth_append)

lemma extends_path_at: "extends h' h \<Longrightarrow> r < length h \<Longrightarrow> path_at h' r = path_at h r"
  by (simp add: path_at_def extends_nth)

lemma extends_list_at: "extends h' h \<Longrightarrow> r < length h \<Longrightarrow> list_at h' r = list_at h r"
  by (simp add: list_at_def extends_nth)

lemma map_sort_key: "map f (sort_key (\<lambda>x. k (f x)) xs) = sort_key k (map f xs)"
proof (induction xs)
  case Nil
  then show ?case by simp
next
  case (Cons x xs)
  have ins: "map f (insort_key (\<lambda>x. k (f x)) y ys) = insort_key k (f y) (map f ys)" for y ys
    by (induction ys) simp_all
  from Cons show ?case by (simp add: ins)
qed

lemma sort_key_cong_set:
  assumes "\<And>x. x \<in> set xs \<Longrightarrow> f x = g x"
  shows "sort_key f xs = sort_key g xs"
  using assms
proof (induction xs)
  case Nil
  then show ?case by simp
next
  case (Cons x xs)
  have ins: "insort_key f y ys = insort_key g y ys"
    if "f y = g y" and "\<And>z. z \<in> set ys \<Longrightarrow> f z = g z" for y ys
    using that by (induction ys) simp_all
  have "sort_key f xs = sort_key g xs" using Cons by simp
  moreover have "insort_key f x (sort_key g xs) = insort_key g x (sort_key g xs)"
    by (rule ins) (simp_all add: Cons.prems)
  ultimately show ?case by simp
qed

lemma map_slice_to: "map f (slice_to xs k) = slice_to (map f xs) k"
  by (simp add: slice_to_def take_map)

lemma set_slice_to: "set (slice_to xs k) \<subseteq> set xs"
  by (auto simp add: slice_to_def dest: in_set_takeD)

lemma wf_heap_refs:
  assumes "wf_heap h paths"
  shows "paths < length h" and "\<And>r. r \<in> set (list_at h paths) \<Longrightarrow> r < length h"
  using assms
  by (auto simp add: wf_heap_def list_at_def list_all_iff split: obj.splits)

lemma map_path_at_extends:
  assumes "extends h' h" and "\<And>r. r \<in> set rs \<Longrightarrow> r < length h"
  shows "map (path_at h') rs = map (path_at h) rs"
  using assms by (simp add: extends_path_at)

lemma reference_candidates_heap_eq:
  "reference_candidates_heap h paths =
     (let S = filter (\<lambda>r. len (path_at h r) = 1) (list_at h paths);
          h2 = h @ [ListObj S, ListObj []]
      in if length S > 5
         then let S' = sort_key (\<lambda>p. arc_length (path_at h2 p)) S
              in (length h + 3, length h + 2,
                  h2[length h := ListObj S'] @ [ListObj (slice_to S' (- 5)), ListObj (slice_to S' 5)])
         else (length h, length h + 1, h2))"
  by (simp add: reference_candidates_heap_def alloc_def Let_def list_at_def nth_append)

lemma reference_candidates_heap_spec:
  assumes wf: "wf_heap h paths"
    and res: "reference_candidates_heap h paths = (ssl, st, h')"
  shows "extends h' h"
    and "st < length h'"
    and "\<forall>r\<in>set (list_at h' st). r < length h"
    and "map (path_at h') (list_at h' ssl) =
         fst (reference_candidates (map (path_at h) (list_at h paths)))"
    and "map (path_at h') (list_at h' st) =
         snd (reference_candidates (map (path_at h) (list_at h paths)))"
proof -
  define refs where "refs = list_at h paths"
  define S where "S = filter (\<lambda>r. len (path_at h r) = 1) (list_at h paths)"
  define h2 where "h2 = h @ [ListObj S, ListObj []]"
  define S' where "S' = sort_key (\<lambda>p. arc_length (path_at h2 p)) S"
  define h5 where
    "h5 = h2[length h := ListObj S'] @ [ListObj (slice_to S' (- 5)), ListObj (slice_to S' 5)]"
  have res': "(if length S > 5 then (length h + 3, length h + 2, h5) else (length h, length h + 1, h2))
      = (ssl, st, h')"
    using res
    unfolding reference_candidates_heap_eq Let_def S_def [symmetric] h2_def [symmetric]
      S'_def [symmetric] h5_def [symmetric] .
  have refs_ok: "r < length h" if "r \<in> set refs" for r
    using that wf_heap_refs(2) [OF wf] by (simp add: refs_def)
  have S_ok: "r < length h" if "r \<in> set S" for r
    using that refs_ok by (simp add: S_def refs_def)
  have ext2: "extends h2 h" by (simp add: h2_def extends_iff)
  define F where "F = filter (\<lambda>p. len p = 1) (map (path_at h) refs)"
  have mapS: "F = map (path_at h) S"
    by (simp add: F_def S_def refs_def filter_map comp_def)
  have rcF: "reference_candidates (map (path_at h) refs) =
      (if length F > 5
       then (slice_to (sort_key arc_length F) 5, slice_to (sort_key arc_length F) (- 5))
       else (F, []))"
    unfolding F_def by (simp add: reference_candidates_def Let_def)
  have all: "extends h' h \<and> st < length h'
    \<and> (\<forall>r\<in>set (list_at h' st). r < length h)
    \<and> map (path_at h') (list_at h' ssl) =
         fst (reference_candidates (map (path_at h) (list_at h paths)))
    \<and> map (path_at h') (list_at h' st) =
         snd (reference_candidates (map (path_at h) (list_at h paths)))"
  proof (cases "length S > 5")
    case False
    with res' have eq: "ssl = length h" "st = Suc (length h)" "h' = h2"
      by simp_all
    have S_at: "list_at h2 (length h) = S"
      by (simp add: h2_def list_at_def nth_append)
    have st_at: "list_at h2 (Suc (length h)) = []"
      by (simp add: h2_def list_at_def nth_append)
    have rc: "reference_candidates (map (path_at h) refs) = (map (path_at h) S, [])"
      using False by (simp add: rcF mapS)
    have c1: "extends h' h" by (simp add: eq ext2)
    have c2: "st < length h'" by (simp add: eq h2_def)
    have c3: "\<forall>r\<in>set (list_at h' st). r < length h" by (simp add: eq st_at)
    have c4: "map (path_at h') (list_at h' ssl) =
         fst (reference_candidates (map (path_at h) (list_at h paths)))"
      using map_path_at_extends [OF ext2 S_ok]
      by (simp add: eq S_at rc refs_def [symmetric])
    have c5: "map (path_at h') (list_at h' st) =
         snd (reference_candidates (map (path_at h) (list_at h paths)))"
      by (simp add: eq st_at rc refs_def [symmetric])
    from c1 c2 c3 c4 c5 show ?thesis by blast
  next
    case True
    with res' have eq: "ssl = Suc (Suc (Suc (length h)))" "st = Suc (Suc (length h))" "h' = h5"
      by simp_all
    have len3: "length (h2[length h := ListObj S']) = Suc (Suc (length h))"
      by (simp add: h2_def)
    have ext5: "extends h5 h"
      unfolding h5_def
      by (intro extends_append extends_update_new ext2) simp
    have S'_set: "set S' = set S" by (simp add: S'_def)
    have key: "sort_key (\<lambda>p. arc_length (path_at h2 p)) S = sort_key (\<lambda>p. arc_length (path_at h p)) S"
      by (rule sort_key_cong_set) (simp add: extends_path_at [OF ext2] S_ok)
    have mapS': "map (path_at h) S' = sort_key arc_length (map (path_at h) S)"
      unfolding S'_def key by (rule map_sort_key)
    have st_at: "list_at h5 (Suc (Suc (length h))) = slice_to S' (- 5)"
      using len3 by (simp add: h5_def list_at_def nth_append)
    have ssl_at: "list_at h5 (Suc (Suc (Suc (length h)))) = slice_to S' 5"
      using len3 by (simp add: h5_def list_at_def nth_append)
    have rc: "reference_candidates (map (path_at h) refs) =
        (slice_to (map (path_at h) S') 5, slice_to (map (path_at h) S') (- 5))"
      using True by (simp add: rcF mapS mapS')
    have sl_ok: "r < length h" if "r \<in> set (slice_to S' k)" for r k
      using that set_slice_to [of S' k] S'_set S_ok by auto
    have m5: "map (path_at h5) S' = map (path_at h) S'"
      by (rule map_path_at_extends [OF ext5]) (simp add: S'_set S_ok)
    have c1: "extends h' h" by (simp add: eq ext5)
    have c2: "st < length h'" using len3 by (simp add: eq h5_def)
    have c3: "\<forall>r\<in>set (list_at h' st). r < length h"
      using sl_ok by (simp add: eq st_at)
    have c4: "map (path_at h') (list_at h' ssl) =
         fst (reference_candidates (map (path_at h) (list_at h paths)))"
      by (simp add: eq ssl_at rc refs_def [symmetric] map_slice_to m5)
    have c5: "map (path_at h') (list_at h' st) =
         snd (reference_candidates (map (path_at h) (list_at h paths)))"
      by (simp add: eq st_at rc refs_def [symmetric] map_slice_to m5)
    from c1 c2 c3 c4 c5 show ?thesis by blast
  qed
  from all show "extends h' h" and "st < length h'"
    and "\<forall>r\<in>set (list_at h' st). r < length h"
    and "map (path_at h') (list_at h' ssl) =
         fst (reference_candidates (map (path_at h) (list_at h paths)))"
    and "map (path_at h') (list_at h' st) =
         snd (reference_candidates (map (path_at h) (list_at h paths)))"
    by blast+
qed

text \<open>
  Six one-segment paths, the longest first in the caller's list (address 6): the sorted
  list is the new object at address 7, and the caller's list is as it was.
\<close>

lemma sorted_list_is_a_new_object:
  "reference_candidates_heap
        [PathObj (hline 60 0 6), PathObj (hline 10 0 1), PathObj (hline 20 0 2),
         PathObj (hline 30 0 3), PathObj (hline 40 0 4), PathObj (hline 50 0 5),
         ListObj [0, 1, 2, 3, 4, 5]] 6
   = (10, 9, [PathObj (hline 60 0 6), PathObj (hline 10 0 1), PathObj (hline 20 0 2),
         PathObj (hline 30 0 3), PathObj (hline 40 0 4), PathObj (hline 50 0 5),
         ListObj [0, 1, 2, 3, 4, 5],
         ListObj [1, 2, 3, 4, 5, 0], ListObj [], ListObj [1], ListObj [1, 2, 3, 4, 5]])"
  by (simp add: reference_candidates_heap_eq Let_def list_at_def path_at_def len_def hline_def
      slice_to_def)

section \<open>Claims about convert\_units\<close>




text \<open>
  Claim C2 as stated fails. With the triple \<open>[90, 50, 10]\<close> (descending, spacing 40) and
  \<open>yspan = 80\<close>, a sample whose native y is the first element, 90, is mapped to -80 and
  not to +80.
\<close>

theorem upper_maps_to_positive_yspan_counterexample:
  "convert_units [Point (Finite 0) (Finite 90)] [Finite 90, Finite 50, Finite 10]
     (Finite 0, Finite 420) (PyInt 80) 42 = Inr [(1, Finite (- 80))]
   \<and> convert_units [Point (Finite 0) (Finite 90)] [Finite 90, Finite 50, Finite 10]
     (Finite 0, Finite 420) (PyInt 80) 42 \<noteq> Inr [(1, Finite 80)]"
  by (simp add: convert_eval float_eval)

text \<open>
  Claim C2, amended. For a reference triple \<open>[upper, baseline, lower]\<close> with
  \<open>upper - baseline = baseline - lower = d > 0\<close> as the code computes the differences
  (\<open>2 d\<close> not beyond the largest double), a finite \<open>yspan\<close>, limits with
  \<open>xmax - xmin \<noteq> 0\<close> and samples with finite day values, \<open>convert_units\<close> maps a sample
  whose native y is the first element (upper) to \<open>-yspan\<close>, a sample at the second
  element (baseline) to 0, and a sample at the third element (lower) to \<open>+yspan\<close>: the
  first element of the triple is the line of -yspan, as the docstrings of both functions
  have it.
\<close>

theorem convert_units_reference_lines:
  assumes "fsub upper baseline = Finite d" and "fsub baseline lower = Finite d" and "0 < d"
    and "2 * d \<le> max_double" and "to_float yspan = Inr (Finite ys)" and "is_double ys"
    and "fsub xmax xmin \<noteq> Finite 0"
    and "day_value xmin (fsub xmax xmin) xspan x1 = Finite r1"
    and "day_value xmin (fsub xmax xmin) xspan x2 = Finite r2"
    and "day_value xmin (fsub xmax xmin) xspan x3 = Finite r3"
  shows "convert_units [Point x1 upper, Point x2 baseline, Point x3 lower]
           [upper, baseline, lower] (xmin, xmax) yspan xspan =
         Inr [(1 + py_round r1, Finite (- ys)),
              (1 + py_round r2, Finite 0),
              (1 + py_round r3, Finite ys)]"
proof -
  from fsub_Finite_inv [OF assms(1)] obtain u b
    where u: "upper = Finite u" and b: "baseline = Finite b" and ub: "fl (u - b) = Finite d"
    by blast
  from fsub_Finite_inv [OF assms(2)] b obtain l
    where l: "lower = Finite l" and bl: "fl (b - l) = Finite d"
    by auto
  have dd: "is_double d" by (rule is_double_fl [OF ub])
  have two: "fl (2 * d) = Finite (2 * d)"
    using is_double_twice [OF dd] assms(3,4) by (simp add: is_double_def)
  have fd: "fl d = Finite d" using dd by (rule fl_is_double)
  have ysc: "y_scale_of upper baseline lower = Finite d"
    using assms(3) by (simp add: y_scale_of_def u b l fsub_Finite ub bl two fd)
  have nz: "y_scale_of upper baseline lower \<noteq> Finite 0" using ysc assms(3) by simp
  have one: "fl 1 = Finite 1" using is_double_int [of 1] by (simp add: is_double_def)
  have mone: "fl (- 1) = Finite (- 1)" using fl_minus [of 1] by (simp add: one)
  have bu: "fl (b - u) = Finite (- d)" using fl_minus [of "u - b"] by (simp add: ub)
  have fy: "fl ys = Finite ys" using assms(6) by (rule fl_is_double)
  have fmy: "fl (- ys) = Finite (- ys)" using fl_minus [of ys] by (simp add: fy)
  have v1: "fmul (Finite ys) (fquot (fsub baseline upper) (Finite d)) = Finite (- ys)"
    using assms(3) by (simp add: u b fsub_Finite bu mone fmy)
  have v2: "fmul (Finite ys) (fquot (fsub baseline baseline) (Finite d)) = Finite 0"
    using assms(3) by (simp add: b fsub_Finite fl_zero)
  have v3: "fmul (Finite ys) (fquot (fsub baseline lower) (Finite d)) = Finite ys"
    using assms(3) by (simp add: b l fsub_Finite bl one fy)
  have nz': "Finite d \<noteq> Finite 0" using assms(3) by simp
  have sp: "sample_pair xmin (fsub xmax xmin) baseline (Finite d) yspan xspan (Point x y) =
      Inr (1 + py_round r, fmul (Finite ys) (fquot (fsub baseline y) (Finite d)))"
    if "day_value xmin (fsub xmax xmin) xspan x = Finite r" for x y r
    using sample_pair_value [OF assms(7) nz' assms(5), of xmin xspan "Point x y" r baseline] that
    by simp
  show ?thesis
    unfolding convert_units_comprehension ysc
    by (simp add: sp [OF assms(8)] sp [OF assms(9)] sp [OF assms(10)] v1 v2 v3)
qed

text \<open>
  The amended statement at the triple \<open>[90, 50, 10]\<close>, \<open>d = 40\<close>, the limits
  \<open>(0, 420)\<close>, \<open>yspan = 80\<close> and \<open>xspan = 42\<close>.
\<close>

theorem convert_units_reference_lines_witness:
  "fsub (Finite 90) (Finite 50) = Finite 40 \<and> fsub (Finite 50) (Finite 10) = Finite 40
   \<and> (0 :: real) < 40 \<and> 2 * 40 \<le> max_double
   \<and> to_float (PyInt 80) = Inr (Finite 80) \<and> is_double 80
   \<and> fsub (Finite 420) (Finite 0) \<noteq> Finite 0
   \<and> convert_units
        [Point (Finite 0) (Finite 90), Point (Finite 210) (Finite 50), Point (Finite 420) (Finite 10)]
        [Finite 90, Finite 50, Finite 10] (Finite 0, Finite 420) (PyInt 80) 42
      = Inr [(1, Finite (- 80)), (22, Finite 0), (43, Finite 80)]"
proof -
  have x_scale: "fsub (Finite 420) (Finite 0) = Finite 420"
    by (simp add: fsub_def float_eval)
  have h1: "fsub (Finite 90) (Finite 50) = Finite 40" by (simp add: fsub_def float_eval)
  have h2: "fsub (Finite 50) (Finite 10) = Finite 40" by (simp add: fsub_def float_eval)
  have h3: "(0 :: real) < 40" by simp
  have h4: "2 * 40 \<le> max_double" by (simp add: max_double_def)
  have h5: "is_double 80" by (simp add: is_double_def float_eval)
  have h5': "to_float (PyInt 80) = Inr (Finite 80)" by (simp add: float_of_int_def float_eval)
  have h6: "fsub (Finite 420) (Finite 0) \<noteq> Finite 0" by (simp add: x_scale)
  have d1: "day_value (Finite 0) (fsub (Finite 420) (Finite 0)) 42 (Finite 0) = Finite 0"
    unfolding x_scale by (simp add: day_value_def fsub_def float_eval)
  have d2: "day_value (Finite 0) (fsub (Finite 420) (Finite 0)) 42 (Finite 210) = Finite 21"
    unfolding x_scale by (simp add: day_value_def fsub_def float_eval)
  have d3: "day_value (Finite 0) (fsub (Finite 420) (Finite 0)) 42 (Finite 420) = Finite 42"
    unfolding x_scale by (simp add: day_value_def fsub_def float_eval)
  have r: "py_round 0 = 0" "py_round 21 = 21" "py_round 42 = 42"
    by (simp_all add: py_round_def)
  from convert_units_reference_lines [OF h1 h2 h3 h4 h5' h5 h6 d1 d2 d3] h1 h2 h4 h5' h5 h6
  show ?thesis by (simp add: r)
qed

text \<open>
  Claim C9. For \<open>xmax > xmin\<close> and \<open>xspan \<ge> 0\<close>, and any two samples of the input, at
  positions \<open>i\<close> and \<open>j\<close>, with native x values \<open>x1 < x2\<close>: \<open>convert_units\<close> returns a
  list as long as the input in which the day offset of the first is at most the day offset
  of the second. The only other outcomes are exceptions, where no day offset is returned
  at all: the ZeroDivisionError of a zero \<open>y_scale\<close>, and the OverflowError or ValueError
  that \<open>round\<close> or an int conversion raises for some sample when a value has left the
  finite doubles.
\<close>

theorem day_offset_monotone:
  assumes "i < length trend" and "j < length trend"
    and "fless (p_real (trend ! i)) (p_real (trend ! j))"
    and "fless xmin xmax" and "is_float xmin" and "is_float xmax" and "0 \<le> xspan"
  shows "case convert_units trend [upper, baseline, lower] (xmin, xmax) yspan xspan of
           Inr out \<Rightarrow> length out = length trend \<and> fst (out ! i) \<le> fst (out ! j)
         | Inl e \<Rightarrow>
             (e = ZeroDivisionError \<and> y_scale_of upper baseline lower = Finite 0)
             \<or> ((e = OverflowError \<or> e = ValueError ''cannot convert float NaN to integer'')
                \<and> ((\<exists>p\<in>set trend. x_out_of xmin (fsub xmax xmin) xspan (p_real p) = Inl e)
                     \<or> to_float yspan = Inl e))"
proof -
  define x_scale where "x_scale = fsub xmax xmin"
  define y_scale where "y_scale = y_scale_of upper baseline lower"
  define f where "f = sample_pair xmin x_scale baseline y_scale yspan xspan"
  have scale: "x_scale = PInf \<or> (\<exists>s. 0 < s \<and> x_scale = Finite s)"
    unfolding x_scale_def by (rule fsub_positive [OF assms(4-6)])
  then have nz: "x_scale \<noteq> Finite 0" by auto
  have cu: "convert_units trend [upper, baseline, lower] (xmin, xmax) yspan xspan =
      comprehension f trend"
    by (simp add: convert_units_comprehension f_def x_scale_def y_scale_def)
  show ?thesis
  proof (cases "comprehension f trend")
    case (Inr out)
    from comprehension_Inr [OF Inr] have len: "length out = length trend"
      and at: "\<And>k. k < length trend \<Longrightarrow> f (trend ! k) = Inr (out ! k)" by auto
    from at [OF assms(1)] have "x_out_of xmin x_scale xspan (p_real (trend ! i)) = Inr (fst (out ! i))"
      unfolding f_def by (rule sample_pair_Inr)
    from x_out_of_Inr [OF this] obtain r1
      where r1: "day_value xmin x_scale xspan (p_real (trend ! i)) = Finite r1"
        and n1: "fst (out ! i) = 1 + py_round r1" by blast
    from at [OF assms(2)] have "x_out_of xmin x_scale xspan (p_real (trend ! j)) = Inr (fst (out ! j))"
      unfolding f_def by (rule sample_pair_Inr)
    from x_out_of_Inr [OF this] obtain r2
      where r2: "day_value xmin x_scale xspan (p_real (trend ! j)) = Finite r2"
        and n2: "fst (out ! j) = 1 + py_round r2" by blast
    have "r1 \<le> r2" by (rule day_value_mono [OF assms(3) scale assms(7) r1 r2])
    then have "py_round r1 \<le> py_round r2" by (rule py_round_mono)
    with len n1 n2 show ?thesis by (simp add: cu Inr)
  next
    case (Inl e)
    from comprehension_Inl [OF Inl] obtain p where p: "p \<in> set trend" and fp: "f p = Inl e"
      by blast
    show ?thesis
    proof (cases "x_out_of xmin x_scale xspan (p_real p)")
      case (Inl e')
      with fp have e: "e' = e" by (simp add: f_def sample_pair_def)
      from x_out_of_error [OF Inl nz] e Inl p show ?thesis
        by (auto simp add: cu \<open>comprehension f trend = Inl e\<close> x_scale_def)
    next
      case (Inr n)
      with fp have "y_out_of baseline y_scale yspan (p_imag p) = Inl e"
        by (simp add: f_def sample_pair_def split: sum.splits)
      then have "(e = ZeroDivisionError \<and> y_scale = Finite 0) \<or> to_float yspan = Inl e"
        by (auto simp add: y_out_of_cases split: if_splits sum.splits)
      then show ?thesis
        using to_float_error [of yspan e]
        by (auto simp add: cu \<open>comprehension f trend = Inl e\<close> y_scale_def)
    qed
  qed
qed

text \<open>
  The theorem at the samples of positions 1 and 2 (x = 5 and x = 10) of a three-sample
  input, with the limits \<open>(0, 420)\<close> and \<open>xspan = 42\<close>: the day offsets are 1 and 2.
\<close>

theorem day_offset_monotone_witness:
  "fless (p_real ([Point (Finite 15) (Finite 10), Point (Finite 5) (Finite 90),
                   Point (Finite 10) (Finite 20)] ! 1))
         (p_real ([Point (Finite 15) (Finite 10), Point (Finite 5) (Finite 90),
                   Point (Finite 10) (Finite 20)] ! 2))
   \<and> fless (Finite 0) (Finite 420) \<and> is_float (Finite 0) \<and> is_float (Finite 420)
   \<and> (0 :: int) \<le> 42
   \<and> convert_units
        [Point (Finite 15) (Finite 10), Point (Finite 5) (Finite 90), Point (Finite 10) (Finite 20)]
        [Finite 90, Finite 50, Finite 10] (Finite 0, Finite 420) (PyInt 80) 42
      = Inr [(3, Finite 80), (1, Finite (- 80)), (2, Finite 60)]
   \<and> fst ([(3 :: int, Finite 80), (1, Finite (- 80)), (2, Finite 60)] ! 1)
       \<le> fst ([(3 :: int, Finite 80), (1, Finite (- 80)), (2, Finite 60)] ! 2)"
proof -
  have ev: "convert_units
        [Point (Finite 15) (Finite 10), Point (Finite 5) (Finite 90), Point (Finite 10) (Finite 20)]
        [Finite 90, Finite 50, Finite 10] (Finite 0, Finite 420) (PyInt 80) 42
      = Inr [(3, Finite 80), (1, Finite (- 80)), (2, Finite 60)]"
    by (simp add: convert_eval float_eval)
  have f0: "is_float (Finite 0)" by (simp add: is_double_zero)
  have f420: "is_float (Finite 420)" by (simp add: is_double_def float_eval)
  have l: "fless (Finite 0) (Finite 420)" by simp
  from day_offset_monotone [of 1
      "[Point (Finite 15) (Finite 10), Point (Finite 5) (Finite 90), Point (Finite 10) (Finite 20)]"
      2 "Finite 0" "Finite 420" 42 "Finite 90" "Finite 50" "Finite 10" "PyInt 80", OF _ _ _ l f0 f420]
    ev f0 f420
  show ?thesis by simp
qed

section \<open>Claims about categorise\_paths\<close>

text \<open>
  Claim C1, evaluated at a drawing the code breaks it on: five grid lines of length 100
  (at y = 10, 50, 90, 30, 70) and one dash of length 5 (at y = 95). After the sort by arc
  length the dash is first; \<open>[:-5]\<close> makes it the one short trend and \<open>[:5]\<close> keeps it
  as a reference candidate too, with four of the grid lines, while the grid line at
  y = 70, one of the five longest, is in neither list. The reference triple comes out as
  \<open>[95, 50, 10]\<close>; with the five longest as candidates it would be \<open>[90, 50, 10]\<close>.
\<close>

theorem five_shortest_kept_longest_dropped:
  "reference_candidates
     [hline 10 0 100, hline 50 0 100, hline 90 0 100, hline 30 0 100, hline 70 0 100, hline 95 40 45]
     = ([hline 95 40 45, hline 10 0 100, hline 50 0 100, hline 90 0 100, hline 30 0 100],
        [hline 95 40 45])
   \<and> categorise_paths
     [hline 10 0 100, hline 50 0 100, hline 90 0 100, hline 30 0 100, hline 70 0 100, hline 95 40 45]
     = Inr ((0, 100), [95, 50, 10], [Complex 40 95, Complex 45 95])"
  by (simp add: eval_defs)

text \<open>
  Claim C3 as stated fails. A drawing of exactly five one-segment lines (start y 10, 20,
  30, 40, 50) and nothing else: the triple is \<open>[50, 30, 10]\<close> and the trend-sample
  sequence is empty, so the points of the lines of rank 1 and 3 (y = 20 and y = 40) are
  not in it.
\<close>

theorem five_lines_excluded_dropped_counterexample:
  "categorise_paths
     [hline 10 0 100, hline 20 5 100, hline 30 0 100, hline 40 0 100, hline 50 0 100]
   = Inr ((5, 100), [50, 30, 10], [])"
  by (simp add: eval_defs)

text \<open>
  Claim C3, amended. For every drawing with exactly five single-segment primitives there
  is no short trend, \<open>categorise_paths\<close> returns, and the trend-sample sequence is the
  samples of the multi-segment primitives only: the two lines the collapse leaves out
  contribute no point.
\<close>

theorem five_lines_only_multi_segment_sampled:
  assumes "length (filter (\<lambda>path. len path = 1) paths) = 5"
  shows "snd (reference_candidates paths) = []
         \<and> (\<exists>xlim y_lines. categorise_paths paths =
               Inr (xlim, y_lines,
                    concat (map sample_points (filter (\<lambda>path. len path > 1) paths))))"
proof -
  from assms have short: "snd (reference_candidates paths) = []"
    by (simp add: reference_candidates_def Let_def)
  from assms have "length (fst (reference_candidates paths)) = 5"
    by (simp add: length_reference_candidates)
  then have "length (collapse (sort (map (\<lambda>p. Im (seg_start (hd (segments p))))
                (fst (reference_candidates paths))))) = 3"
    by (simp add: collapse_def)
  then show ?thesis
    unfolding categorise_paths_eq Let_def short by simp
qed

text \<open>
  The amended statement at five lines and the polyline: the samples are those of the
  polyline.
\<close>

theorem five_lines_only_multi_segment_sampled_witness:
  "length (filter (\<lambda>path. len path = 1)
      [hline 10 0 100, hline 20 5 100, polyline, hline 30 0 100, hline 40 0 100, hline 50 0 100]) = 5
   \<and> (\<exists>xlim y_lines. categorise_paths
         [hline 10 0 100, hline 20 5 100, polyline, hline 30 0 100, hline 40 0 100, hline 50 0 100]
       = Inr (xlim, y_lines, [Complex 0 0, Complex 3 4, Complex 6 0, Complex 7 0, Complex 7 2]))"
proof -
  have five: "length (filter (\<lambda>path. len path = 1)
      [hline 10 0 100, hline 20 5 100, polyline, hline 30 0 100, hline 40 0 100, hline 50 0 100]) = 5"
    by (simp add: len_def hline_def polyline_def)
  have sp: "sample_points polyline = [Complex 0 0, Complex 3 4, Complex 6 0, Complex 7 0, Complex 7 2]"
    by (simp add: sample_points_def polyline_def)
  have multi: "filter (\<lambda>path. len path > 1)
      [hline 10 0 100, hline 20 5 100, polyline, hline 30 0 100, hline 40 0 100, hline 50 0 100]
      = [polyline]"
    by (simp add: len_def hline_def polyline_def)
  from five_lines_only_multi_segment_sampled [OF five] five show ?thesis
    unfolding multi by (simp add: sp)
qed

text \<open>
  Claim C4. Whenever the single-segment candidates yield exactly five sorted start-y
  values \<open>ys\<close>, the collapse keeps the minimum, the element at index 2 and the maximum,
  and \<open>categorise_paths\<close> returns with the reference triple \<open>[max, ys[2], min]\<close>.
\<close>

theorem five_values_collapse:
  assumes "start_ys (fst (reference_candidates paths)) = Inr ys" and "length ys = 5"
  shows "collapse ys = [Min (set ys), ys ! 2, Max (set ys)]
         \<and> (\<exists>xlim points.
               categorise_paths paths = Inr (xlim, [Max (set ys), ys ! 2, Min (set ys)], points))"
proof -
  have sy: "start_ys (fst (reference_candidates paths)) =
        Inr (sort (map (\<lambda>p. Im (seg_start (hd (segments p)))) (fst (reference_candidates paths))))"
    by (rule start_ys_total) (rule candidates_single)
  with assms(1) have ys: "ys = sort (map (\<lambda>p. Im (seg_start (hd (segments p))))
      (fst (reference_candidates paths)))"
    by simp
  then have srt: "sorted ys" by simp
  obtain a b c d e where five: "ys = [a, b, c, d, e]"
    using length_five [OF assms(2)] by blast
  from srt five have ord: "a \<le> b" "b \<le> c" "c \<le> d" "d \<le> e" by simp_all
  have mn: "Min (set ys) = a" using ord by (simp add: five min_def)
  have mx: "Max (set ys) = e" using ord by (simp add: five max_def)
  have col: "collapse ys = [a, c, e]" by (simp add: collapse_def five)
  have rev3: "sorted_reverse [a, c, e] = [e, c, a]"
    using ord by (intro sorted_reverse_three) simp_all
  have "categorise_paths paths =
        Inr ((Re (seg_start (hd (segments (filter (\<lambda>p. len p = 1) paths ! 1)))),
              Re (seg_end (hd (segments (filter (\<lambda>p. len p = 1) paths ! 1))))),
             [e, c, a],
             concat (map sample_points (filter (\<lambda>p. len p > 1) paths @ snd (reference_candidates paths))))"
    unfolding categorise_paths_eq Let_def ys [symmetric] col rev3 by simp
  moreover have "ys ! 2 = c" by (simp add: five)
  ultimately show ?thesis unfolding col mn mx by blast
qed

text \<open>The theorem at five lines given in the order y = 40, 20, 50, 10, 30.\<close>

theorem five_values_collapse_witness:
  "start_ys (fst (reference_candidates
       [hline 40 0 100, hline 20 5 100, hline 50 0 100, hline 10 0 100, hline 30 0 100]))
     = Inr [10, 20, 30, 40, 50]
   \<and> collapse [10, 20, 30, 40, 50] = [10, 30, 50]
   \<and> (\<exists>xlim points. categorise_paths
         [hline 40 0 100, hline 20 5 100, hline 50 0 100, hline 10 0 100, hline 30 0 100]
       = Inr (xlim, [50, 30, 10], points))"
proof -
  have sy: "start_ys (fst (reference_candidates
       [hline 40 0 100, hline 20 5 100, hline 50 0 100, hline 10 0 100, hline 30 0 100]))
     = Inr [10, 20, 30, 40, 50]"
    by (simp add: eval_defs)
  from five_values_collapse [OF sy] sy show ?thesis by simp
qed

text \<open>
  Claim C5. \<open>y_lines\<close> after the collapse is always defined; \<open>categorise_paths\<close>
  returns normally if it has exactly three elements, and otherwise raises the ValueError
  whose message ends with their number, and nothing else. Four single-segment
  primitives raise it with the count 4; three return normally.
\<close>

theorem wrong_number_of_y_lines:
  "(\<exists>y_lines. reference_y_lines paths = Inr y_lines \<and>
      (if length y_lines = 3
       then \<exists>result. categorise_paths paths = Inr result
       else categorise_paths paths =
              Inl (ValueError (''Wrong number of y_lines: '' @ str_nat (length y_lines)))))
   \<and> (length (filter (\<lambda>path. len path = 1) paths) = 4 \<longrightarrow>
        categorise_paths paths = Inl (ValueError ''Wrong number of y_lines: 4''))
   \<and> (length (filter (\<lambda>path. len path = 1) paths) = 3 \<longrightarrow>
        (\<exists>result. categorise_paths paths = Inr result))"
proof (intro conjI impI)
  show "\<exists>y_lines. reference_y_lines paths = Inr y_lines \<and>
      (if length y_lines = 3
       then \<exists>result. categorise_paths paths = Inr result
       else categorise_paths paths =
              Inl (ValueError (''Wrong number of y_lines: '' @ str_nat (length y_lines))))"
    unfolding reference_y_lines_total categorise_paths_eq Let_def by simp
next
  assume "length (filter (\<lambda>path. len path = 1) paths) = 4"
  then have "length (fst (reference_candidates paths)) = 4"
    by (simp add: length_reference_candidates)
  then show "categorise_paths paths = Inl (ValueError ''Wrong number of y_lines: 4'')"
    unfolding categorise_paths_eq Let_def by (simp add: collapse_def str_nat.simps)
next
  assume "length (filter (\<lambda>path. len path = 1) paths) = 3"
  then have "length (fst (reference_candidates paths)) = 3"
    by (simp add: length_reference_candidates)
  then show "\<exists>result. categorise_paths paths = Inr result"
    unfolding categorise_paths_eq Let_def by (simp add: collapse_def)
qed

text \<open>The theorem at a drawing of four lines and at a drawing of three lines.\<close>

theorem wrong_number_of_y_lines_witness:
  "categorise_paths [hline 10 0 100, hline 20 0 100, hline 30 0 100, hline 40 0 100]
     = Inl (ValueError ''Wrong number of y_lines: 4'')
   \<and> (\<exists>result. categorise_paths [hline 10 0 100, hline 50 0 100, hline 90 0 100] = Inr result)"
  using wrong_number_of_y_lines [of "[hline 10 0 100, hline 20 0 100, hline 30 0 100, hline 40 0 100]"]
    wrong_number_of_y_lines [of "[hline 10 0 100, hline 50 0 100, hline 90 0 100]"]
  by (simp add: len_def hline_def)

text \<open>
  Claim C6. Whenever \<open>categorise_paths\<close> returns, there are at least two
  single-segment primitives and the returned x-limits are \<open>(start.real, end.real)\<close> of
  the one at index 1 among them in the order of the argument list, whatever the sort by
  arc length did.
\<close>

theorem x_limits_second_single_in_original_order:
  assumes "categorise_paths paths = Inr (xlim, y_lines, points)"
  shows "1 < length (filter (\<lambda>path. len path = 1) paths)
         \<and> (\<exists>s e. path_start (filter (\<lambda>path. len path = 1) paths ! 1) = Inr s
                 \<and> path_end (filter (\<lambda>path. len path = 1) paths ! 1) = Inr e
                 \<and> xlim = (Re s, Re e))"
proof -
  let ?singles = "filter (\<lambda>path. len path = 1) paths"
  let ?ys = "collapse (sort (map (\<lambda>p. Im (seg_start (hd (segments p))))
                (fst (reference_candidates paths))))"
  from assms have three: "length ?ys = 3" and
    xl: "xlim = (Re (seg_start (hd (segments (?singles ! 1)))),
                 Re (seg_end (hd (segments (?singles ! 1)))))"
    unfolding categorise_paths_eq Let_def by (simp_all split: if_splits)
  have two: "1 < length ?singles"
    using three length_reference_candidates [of paths]
    by (auto simp add: collapse_def split: if_splits)
  then have "?singles ! 1 \<in> set ?singles" by (rule nth_mem)
  then have one: "len (?singles ! 1) = 1" by simp
  from xl path_start_single [OF one] path_end_single [OF one]
  have "\<exists>s e. path_start (?singles ! 1) = Inr s \<and> path_end (?singles ! 1) = Inr e
          \<and> xlim = (Re s, Re e)"
    by blast
  with two show ?thesis by blast
qed

text \<open>
  The theorem at six lines, the longest first: index 1 in the original order is the line
  from x = 0 to x = 1 (index 1 in the order by arc length is the line from 0 to 2).
\<close>

theorem x_limits_second_single_in_original_order_witness:
  "categorise_paths
     [hline 60 0 6, hline 10 0 1, hline 20 0 2, hline 30 0 3, hline 40 0 4, hline 50 0 5]
     = Inr ((0, 1), [50, 30, 10], [Complex 0 10, Complex 1 10])
   \<and> path_start (hline 10 0 1) = Inr (Complex 0 10)
   \<and> path_end (hline 10 0 1) = Inr (Complex 1 10)"
proof -
  have ev: "categorise_paths
     [hline 60 0 6, hline 10 0 1, hline 20 0 2, hline 30 0 3, hline 40 0 4, hline 50 0 5]
     = Inr ((0, 1), [50, 30, 10], [Complex 0 10, Complex 1 10])"
    by (simp add: eval_defs)
  from x_limits_second_single_in_original_order [OF ev] ev show ?thesis
    by (simp add: len_def hline_def path_start_def path_end_def)
qed



text \<open>
  Claim C10. On any heap where \<open>paths\<close> refers to a list of references to Path objects,
  \<open>categorise_paths\<close> leaves every object that existed before the call at its address
  and unchanged, the caller's list and each Path among them, whether it returns or
  raises; and its outcome is that of \<open>categorise_paths\<close> above on the paths of the list.
  The sort of line 113 overwrites the list that line 108 created.
\<close>

theorem categorise_paths_heap_frame:
  assumes wf: "wf_heap h paths"
  shows "take (length h) (snd (categorise_paths_heap h paths)) = h
         \<and> fst (categorise_paths_heap h paths) =
             categorise_paths (map (path_at h) (list_at h paths))"
proof -
  obtain ssl st h' where res: "reference_candidates_heap h paths = (ssl, st, h')"
    by (cases "reference_candidates_heap h paths") auto
  note spec = reference_candidates_heap_spec [OF wf res]
  define ps where "ps = map (path_at h) (list_at h paths)"
  define lines where "lines = fst (reference_candidates ps)"
  define short where "short = snd (reference_candidates ps)"
  have rc: "reference_candidates ps = (lines, short)"
    by (simp add: lines_def short_def)
  have ext: "extends h' h" by (rule spec(1))
  have l1: "map (path_at h') (list_at h' ssl) = lines"
    using spec(4) by (simp add: lines_def ps_def)
  have l2: "map (path_at h') (list_at h' st) = short"
    using spec(5) by (simp add: short_def ps_def)
  have refs: "list_at h' paths = list_at h paths"
    by (rule extends_list_at [OF ext wf_heap_refs(1) [OF wf]])
  have l3: "map (path_at h') (list_at h' paths) = ps"
    unfolding refs ps_def
    by (rule map_path_at_extends [OF ext]) (rule wf_heap_refs(2) [OF wf])
  define M where "M = filter (\<lambda>path. len (path_at h' path) > 1) (list_at h' paths)"
  define h6 where "h6 = h' @ [ListObj M]"
  define T where "T = list_at h6 (length h') @ list_at h6 st"
  define h7 where "h7 = h6 @ [ListObj T]"
  have T_eq: "T = M @ list_at h' st"
    using spec(2) by (simp add: T_def h6_def list_at_def nth_append)
  have T_at: "list_at h7 (length h6) = T"
    by (simp add: h7_def list_at_def)
  have ext7': "extends h7 h'" by (simp add: h7_def h6_def extends_iff)
  have ext7: "extends h7 h" by (rule extends_trans [OF ext7' ext])
  have M_ok: "r < length h" if "r \<in> set M" for r
    using that wf_heap_refs(2) [OF wf] by (simp add: M_def refs)
  have mapM: "map (path_at h7) M = filter (\<lambda>p. len p > 1) ps"
  proof -
    have "map (path_at h7) M = map (path_at h) M"
      by (rule map_path_at_extends [OF ext7]) (rule M_ok)
    also have "\<dots> = map (path_at h') M"
      by (rule map_path_at_extends [OF ext, symmetric]) (rule M_ok)
    also have "\<dots> = filter (\<lambda>p. len p > 1) (map (path_at h') (list_at h' paths))"
      by (simp add: M_def filter_map comp_def)
    finally show ?thesis by (simp only: l3)
  qed
  have mapST: "map (path_at h7) (list_at h' st) = short"
  proof -
    have "map (path_at h7) (list_at h' st) = map (path_at h) (list_at h' st)"
      by (rule map_path_at_extends [OF ext7]) (simp add: spec(3))
    also have "\<dots> = map (path_at h') (list_at h' st)"
      by (rule map_path_at_extends [OF ext, symmetric]) (simp add: spec(3))
    finally show ?thesis by (simp only: l2)
  qed
  have mapT: "map (path_at h7) (list_at h7 (length h6)) = filter (\<lambda>p. len p > 1) ps @ short"
    by (simp only: T_at T_eq map_append mapM mapST)
  have heap_eq: "categorise_paths_heap h paths =
     (case start_ys lines of
        Inl e \<Rightarrow> (Inl e, h')
      | Inr y_lines \<Rightarrow>
          if length (collapse y_lines) = 3
          then (case x_limits ps of
                  Inl e \<Rightarrow> (Inl e, h')
                | Inr xlim \<Rightarrow>
                    (case trend_loop (filter (\<lambda>p. len p > 1) ps @ short) [] of
                       Inl e \<Rightarrow> (Inl e, h7)
                     | Inr points \<Rightarrow> (Inr (xlim, sorted_reverse (collapse y_lines), points), h7)))
          else (Inl (ValueError (''Wrong number of y_lines: '' @ str_nat (length (collapse y_lines)))),
                h'))"
    unfolding categorise_paths_heap_def res prod.case alloc_def Let_def l1 l3
      M_def [symmetric] h6_def [symmetric] T_def [symmetric] h7_def [symmetric] mapT ..
  have pure_eq: "categorise_paths ps =
     (case start_ys lines of
        Inl e \<Rightarrow> Inl e
      | Inr y_lines \<Rightarrow>
          if length (collapse y_lines) = 3
          then (case x_limits ps of
                  Inl e \<Rightarrow> Inl e
                | Inr xlim \<Rightarrow>
                    (case trend_loop (filter (\<lambda>p. len p > 1) ps @ short) [] of
                       Inl e \<Rightarrow> Inl e
                     | Inr points \<Rightarrow> Inr (xlim, sorted_reverse (collapse y_lines), points)))
          else Inl (ValueError (''Wrong number of y_lines: '' @ str_nat (length (collapse y_lines)))))"
    unfolding categorise_paths_def rc prod.case Let_def ..
  have t7: "take (length h) h7 = h" using ext7 by (simp add: extends_def)
  have t': "take (length h) h' = h" using ext by (simp add: extends_def)
  show ?thesis
    unfolding heap_eq pure_eq ps_def [symmetric]
    by (simp add: t7 t' split: sum.splits)
qed

text \<open>
  The theorem at six lines, the longest first, so that the sort of line 113 runs and
  changes the order, and at four lines, where the call raises.
\<close>

theorem categorise_paths_heap_frame_witness:
  "wf_heap [PathObj (hline 60 0 6), PathObj (hline 10 0 1), PathObj (hline 20 0 2),
            PathObj (hline 30 0 3), PathObj (hline 40 0 4), PathObj (hline 50 0 5),
            ListObj [0, 1, 2, 3, 4, 5]] 6
   \<and> take 7 (snd (categorise_paths_heap
        [PathObj (hline 60 0 6), PathObj (hline 10 0 1), PathObj (hline 20 0 2),
         PathObj (hline 30 0 3), PathObj (hline 40 0 4), PathObj (hline 50 0 5),
         ListObj [0, 1, 2, 3, 4, 5]] 6))
     = [PathObj (hline 60 0 6), PathObj (hline 10 0 1), PathObj (hline 20 0 2),
        PathObj (hline 30 0 3), PathObj (hline 40 0 4), PathObj (hline 50 0 5),
        ListObj [0, 1, 2, 3, 4, 5]]
   \<and> fst (categorise_paths_heap
        [PathObj (hline 60 0 6), PathObj (hline 10 0 1), PathObj (hline 20 0 2),
         PathObj (hline 30 0 3), PathObj (hline 40 0 4), PathObj (hline 50 0 5),
         ListObj [0, 1, 2, 3, 4, 5]] 6)
     = Inr ((0, 1), [50, 30, 10], [Complex 0 10, Complex 1 10])
   \<and> wf_heap [ListObj [1, 2, 3, 4], PathObj (hline 10 0 100), PathObj (hline 20 0 100),
              PathObj (hline 30 0 100), PathObj (hline 40 0 100)] 0
   \<and> take 5 (snd (categorise_paths_heap
        [ListObj [1, 2, 3, 4], PathObj (hline 10 0 100), PathObj (hline 20 0 100),
         PathObj (hline 30 0 100), PathObj (hline 40 0 100)] 0))
     = [ListObj [1, 2, 3, 4], PathObj (hline 10 0 100), PathObj (hline 20 0 100),
        PathObj (hline 30 0 100), PathObj (hline 40 0 100)]
   \<and> fst (categorise_paths_heap
        [ListObj [1, 2, 3, 4], PathObj (hline 10 0 100), PathObj (hline 20 0 100),
         PathObj (hline 30 0 100), PathObj (hline 40 0 100)] 0)
     = Inl (ValueError ''Wrong number of y_lines: 4'')"
proof -
  let ?h = "[PathObj (hline 60 0 6), PathObj (hline 10 0 1), PathObj (hline 20 0 2),
            PathObj (hline 30 0 3), PathObj (hline 40 0 4), PathObj (hline 50 0 5),
            ListObj [0, 1, 2, 3, 4, 5]]"
  let ?g = "[ListObj [1, 2, 3, 4], PathObj (hline 10 0 100), PathObj (hline 20 0 100),
            PathObj (hline 30 0 100), PathObj (hline 40 0 100)]"
  have wf: "wf_heap ?h 6" by (simp add: wf_heap_def)
  have ps: "map (path_at ?h) (list_at ?h 6) =
      [hline 60 0 6, hline 10 0 1, hline 20 0 2, hline 30 0 3, hline 40 0 4, hline 50 0 5]"
    by (simp add: list_at_def path_at_def)
  have ev: "categorise_paths
      [hline 60 0 6, hline 10 0 1, hline 20 0 2, hline 30 0 3, hline 40 0 4, hline 50 0 5]
     = Inr ((0, 1), [50, 30, 10], [Complex 0 10, Complex 1 10])"
    by (simp add: eval_defs)
  have len: "length ?h = 7" by simp
  note returns = categorise_paths_heap_frame [OF wf, unfolded ps ev len]
  have wf': "wf_heap ?g 0" by (simp add: wf_heap_def)
  have ps': "map (path_at ?g) (list_at ?g 0) =
      [hline 10 0 100, hline 20 0 100, hline 30 0 100, hline 40 0 100]"
    by (simp add: list_at_def path_at_def)
  have ev': "categorise_paths [hline 10 0 100, hline 20 0 100, hline 30 0 100, hline 40 0 100]
     = Inl (ValueError ''Wrong number of y_lines: 4'')"
    by (simp add: eval_defs str_nat.simps)
  have len': "length ?g = 5" by simp
  note raises = categorise_paths_heap_frame [OF wf', unfolded ps' ev' len']
  from returns wf raises wf' show ?thesis by blast
qed

end
